theory Spec2Isabelle
  imports Main "HOL-Library.Word" "HOL-Library.Monad_Syntax"
begin

section \<open>The memory of the scheduler\<close>

text \<open>
  The scheduler of \<^verbatim>\<open>qtask.c\<close> links caller-allocated task objects into two circular,
  doubly linked lists through a node embedded in every task object. The lists alias the
  task objects, so the model keeps an explicit store.

  A node pointer (\<^verbatim>\<open>QTaskList *\<close>) is the null pointer, the address of one of the two
  sentinels of the scheduler (\<^verbatim>\<open>&sched->task_list\<close>, \<^verbatim>\<open>&sched->suspend_list\<close>), or the
  address of the node embedded in the task object at address \<open>i\<close>
  (\<^verbatim>\<open>&task->task_node\<close>). A task pointer (\<^verbatim>\<open>QTaskObj *\<close>) is the address \<open>i\<close> itself.
\<close>

datatype node_ptr = QNULL | Task_list | Suspend_list | Task_node nat

record QTaskList =
  prev :: node_ptr
  "next" :: node_ptr

text \<open>\<^verbatim>\<open>size_t\<close> is taken as 32 bits wide; \<^verbatim>\<open>handle\<close> is the address of the callback.\<close>

type_synonym size_t = "32 word"

record QTaskObj =
  name :: "string option"
  id_obj :: "16 word"
  isready :: "8 word"
  handle :: nat
  timer :: size_t
  period :: size_t
  rtime :: size_t
  rtick :: size_t

text \<open>
  The store: \<open>run_task\<close> is \<^verbatim>\<open>sched->run_task\<close> (\<open>None\<close> for the null pointer), \<open>nodes\<close>
  holds the link node at every node address, \<open>objs\<close> the other fields of the task object
  at every task address. \<open>calls\<close> is the trace of the callbacks entered so far, by their
  addresses.
\<close>

record mem =
  run_task :: "nat option"
  nodes :: "node_ptr \<Rightarrow> QTaskList"
  objs :: "nat \<Rightarrow> QTaskObj"
  calls :: "nat list"

text \<open>
  Every function that follows pointers returns an option: \<open>None\<close> says that the call does
  not return normally, because it dereferences the null pointer, reads a task object
  where there is none (around the null pointer or a sentinel), or runs forever on a list
  that never comes back to its sentinel.
\<close>

definition set_prev :: "mem \<Rightarrow> node_ptr \<Rightarrow> node_ptr \<Rightarrow> mem" where
  "set_prev s p v = s\<lparr>nodes := (nodes s)(p := (nodes s p)\<lparr>prev := v\<rparr>)\<rparr>"

definition set_next :: "mem \<Rightarrow> node_ptr \<Rightarrow> node_ptr \<Rightarrow> mem" where
  "set_next s p v = s\<lparr>nodes := (nodes s)(p := (nodes s p)\<lparr>next := v\<rparr>)\<rparr>"

definition upd_obj :: "mem \<Rightarrow> nat \<Rightarrow> (QTaskObj \<Rightarrow> QTaskObj) \<Rightarrow> mem" where
  "upd_obj s task f = s\<lparr>objs := (objs s)(task := f (objs s task))\<rparr>"

text \<open>\<^verbatim>\<open>QTASK_ENTRY\<close>: the task object around a node; only a task's node has one.\<close>

fun QTASK_ENTRY :: "node_ptr \<Rightarrow> nat option" where
  "QTASK_ENTRY (Task_node i) = Some i"
| "QTASK_ENTRY _ = None"

text \<open>\<^verbatim>\<open>node ? node->next : QNULL\<close> of \<^verbatim>\<open>QTASK_ITERATOR_SAFE\<close>.\<close>

definition safe_next :: "mem \<Rightarrow> node_ptr \<Rightarrow> node_ptr" where
  "safe_next s node = (if node = QNULL then QNULL else next (nodes s node))"

section \<open>List primitives\<close>

definition list_insert :: "mem \<Rightarrow> node_ptr \<Rightarrow> node_ptr \<Rightarrow> mem option" where
  "list_insert s list node =
     (if list = QNULL \<or> node = QNULL \<or> next (nodes s list) = QNULL then None
      else
        let s1 = set_prev s (next (nodes s list)) node;
            s2 = set_next s1 node (next (nodes s1 list));
            s3 = set_next s2 list node;
            s4 = set_prev s3 node list
        in Some s4)"

definition list_remove :: "mem \<Rightarrow> node_ptr \<Rightarrow> mem option" where
  "list_remove s node =
     (if node = QNULL \<or> next (nodes s node) = QNULL then None
      else
        let s1 = set_prev s (next (nodes s node)) (prev (nodes s node))
        in if prev (nodes s1 node) = QNULL then None
           else
             let s2 = set_next s1 (prev (nodes s1 node)) (next (nodes s1 node));
                 s3 = set_prev s2 node node;
                 s4 = set_next s3 node node
             in Some s4)"

section \<open>Existence checks and the name hash\<close>

text \<open>
  The loop of \<^verbatim>\<open>_qtask_isexist\<close> and \<^verbatim>\<open>_qdtask_isexsit\<close>, which differ in the list only:
  \<open>node\<close> is the loop variable, \<open>list\<close> the sentinel.
\<close>

partial_function (option) isexist_loop :: "mem \<Rightarrow> node_ptr \<Rightarrow> nat \<Rightarrow> node_ptr \<Rightarrow> int option" where
  "isexist_loop s list task node =
     (if node = list then Some 0
      else case QTASK_ENTRY node of
             None \<Rightarrow> None
           | Some t \<Rightarrow>
               if id_obj (objs s task) = id_obj (objs s t) then Some 1
               else isexist_loop s list task (next (nodes s node)))"

definition qtask_isexist :: "mem \<Rightarrow> nat \<Rightarrow> int option" where
  "qtask_isexist s task = isexist_loop s Task_list task (next (nodes s Task_list))"

definition qdtask_isexsit :: "mem \<Rightarrow> nat \<Rightarrow> int option" where
  "qdtask_isexsit s task = isexist_loop s Suspend_list task (next (nodes s Suspend_list))"

text \<open>
  \<^verbatim>\<open>_id_calc\<close>: the hash is a \<^verbatim>\<open>uint16_t\<close>, so every step is taken modulo \<open>2^16\<close>. A name is
  \<open>None\<close> for the null pointer; the loop stops at the first NUL character. Characters are
  read as unsigned bytes.
\<close>

fun id_loop :: "16 word \<Rightarrow> string \<Rightarrow> 16 word" where
  "id_loop hash [] = hash"
| "id_loop hash (c # cs) =
     (if of_char c = (0::nat) then hash
      else id_loop (push_bit 5 hash + hash + of_nat (of_char c)) cs)"

definition id_calc :: "string option \<Rightarrow> 16 word" where
  "id_calc nm = (case nm of None \<Rightarrow> 0 | Some cs \<Rightarrow> id_loop 5381 cs)"

section \<open>Registration\<close>

definition qtask_sched_init :: "mem \<Rightarrow> mem" where
  "qtask_sched_init s =
     (let s1 = set_next s Task_list Task_list;
          s2 = set_prev s1 Task_list Task_list;
          s3 = set_next s2 Suspend_list Suspend_list;
          s4 = set_prev s3 Suspend_list Suspend_list
      in s4)"

text \<open>The three lines \<^verbatim>\<open>isready = 0; timer = period; _list_remove(&task->task_node)\<close>.\<close>

definition reset_remove :: "mem \<Rightarrow> nat \<Rightarrow> mem option" where
  "reset_remove s task =
     (let s1 = upd_obj s task (\<lambda>t. t\<lparr>isready := 0\<rparr>);
          s2 = upd_obj s1 task (\<lambda>t. t\<lparr>timer := period t\<rparr>)
      in list_remove s2 (Task_node task))"

definition qtask_add :: "mem \<Rightarrow> nat \<Rightarrow> string option \<Rightarrow> nat \<Rightarrow> size_t \<Rightarrow> (int \<times> mem) option" where
  "qtask_add s task nm hdl tick =
     (let s0 = upd_obj s task (\<lambda>t. t\<lparr>name := nm, id_obj := id_calc nm, isready := 0,
                 handle := hdl, timer := tick, period := tick, rtime := 0, rtick := 0\<rparr>)
      in do {
        d \<leftarrow> qdtask_isexsit s0 task;
        s1 \<leftarrow> (if d \<noteq> 0 then reset_remove s0 task else Some s0);
        e \<leftarrow> qtask_isexist s1 task;
        if e = 0 then do {
          s2 \<leftarrow> list_insert s1 Task_list (Task_node task);
          Some (0, s2)
        } else Some (1, s1)
      })"

definition qtask_del :: "mem \<Rightarrow> nat \<Rightarrow> (int \<times> mem) option" where
  "qtask_del s task =
     do {
       e \<leftarrow> qtask_isexist s task;
       s1 \<leftarrow> (if e \<noteq> 0 then reset_remove s task else Some s);
       d \<leftarrow> qdtask_isexsit s1 task;
       if d = 0 then do {
         s2 \<leftarrow> list_insert s1 Suspend_list (Task_node task);
         Some (0, s2)
       } else Some (- 1, s1)
     }"

text \<open>
  \<^verbatim>\<open>qtask_suspend\<close>: the body of the loop returns at the first task of the active list
  whose id is the hash of the name, so the memory is the same in every iteration.
\<close>

partial_function (option) suspend_loop :: "mem \<Rightarrow> 16 word \<Rightarrow> node_ptr \<Rightarrow> node_ptr \<Rightarrow> (int \<times> mem) option" where
  "suspend_loop s i node safe =
     (if node = QNULL \<or> node = Task_list then Some (- 1, s)
      else case QTASK_ENTRY node of
             None \<Rightarrow> None
           | Some task \<Rightarrow>
               if id_obj (objs s task) = i then
                 do {
                   e \<leftarrow> qtask_isexist s task;
                   s1 \<leftarrow> (if e \<noteq> 0 then reset_remove s task else Some s);
                   d \<leftarrow> qdtask_isexsit s1 task;
                   if d = 0 then do {
                     s2 \<leftarrow> list_insert s1 Suspend_list (Task_node task);
                     Some (0, s2)
                   } else Some (- 1, s1)
                 }
               else suspend_loop s i safe (safe_next s safe))"

definition qtask_suspend :: "mem \<Rightarrow> string option \<Rightarrow> (int \<times> mem) option" where
  "qtask_suspend s nm =
     (let i = id_calc nm; node = next (nodes s Task_list)
      in suspend_loop s i node (safe_next s node))"

text \<open>
  \<^verbatim>\<open>qtask_resume\<close>: unlike in \<^verbatim>\<open>qtask_suspend\<close>, a matching task that is not inserted does
  not end the loop, which goes on from the successor saved before the body ran.
\<close>

partial_function (option) resume_loop :: "mem \<Rightarrow> 16 word \<Rightarrow> node_ptr \<Rightarrow> node_ptr \<Rightarrow> (int \<times> mem) option" where
  "resume_loop s i node safe =
     (if node = QNULL \<or> node = Suspend_list then Some (- 1, s)
      else case QTASK_ENTRY node of
             None \<Rightarrow> None
           | Some task \<Rightarrow>
               if id_obj (objs s task) = i then
                 do {
                   d \<leftarrow> qdtask_isexsit s task;
                   s1 \<leftarrow> (if d \<noteq> 0 then reset_remove s task else Some s);
                   e \<leftarrow> qtask_isexist s1 task;
                   if e = 0 then do {
                     s2 \<leftarrow> list_insert s1 Task_list (Task_node task);
                     Some (0, s2)
                   } else resume_loop s1 i safe (safe_next s1 safe)
                 }
               else resume_loop s i safe (safe_next s safe))"

definition qtask_resume :: "mem \<Rightarrow> string option \<Rightarrow> (int \<times> mem) option" where
  "qtask_resume s nm =
     (let i = id_calc nm; node = next (nodes s Suspend_list)
      in resume_loop s i node (safe_next s node))"

partial_function (option) obj_loop :: "mem \<Rightarrow> 16 word \<Rightarrow> node_ptr \<Rightarrow> nat option option" where
  "obj_loop s i node =
     (if node = Task_list then Some None
      else case QTASK_ENTRY node of
             None \<Rightarrow> None
           | Some task \<Rightarrow>
               if id_obj (objs s task) = i then Some (Some task)
               else obj_loop s i (next (nodes s node)))"

definition qtask_obj :: "mem \<Rightarrow> string option \<Rightarrow> nat option option" where
  "qtask_obj s taskname = obj_loop s (id_calc taskname) (next (nodes s Task_list))"

section \<open>The passes\<close>

text \<open>
  The callbacks are code outside \<^verbatim>\<open>qtask.c\<close>, so what they do is a parameter of the execute
  pass: \<open>cb h s\<close> is the memory that the code at address \<open>h\<close> leaves when it is entered on
  the memory \<open>s\<close>, and \<open>None\<close> when it does not return. \<^verbatim>\<open>task->handle()\<close> is \<open>call_handle\<close>:
  the call through the null pointer (address 0) does not return normally; any other call
  enters the trace and runs the code at the address.
\<close>

type_synonym callbacks = "nat \<Rightarrow> mem \<Rightarrow> mem option"

definition call_handle :: "callbacks \<Rightarrow> mem \<Rightarrow> nat \<Rightarrow> mem option" where
  "call_handle cb s h = (if h = 0 then None else cb h (s\<lparr>calls := calls s @ [h]\<rparr>))"

text \<open>
  The body of \<^verbatim>\<open>qtask_exec\<close> for one task: if it is ready, the callback, then the three
  stores, which read and write the memory that the callback has left.
\<close>

definition exec_task :: "callbacks \<Rightarrow> mem \<Rightarrow> nat \<Rightarrow> mem option" where
  "exec_task cb s task =
     (if isready (objs s task) \<noteq> 0 then
        do {
          s1 \<leftarrow> call_handle cb s (handle (objs s task));
          let s2 = upd_obj s1 task (\<lambda>t. t\<lparr>rtime := rtick t\<rparr>);
              s3 = upd_obj s2 task (\<lambda>t. t\<lparr>isready := 0\<rparr>);
              s4 = upd_obj s3 task (\<lambda>t. t\<lparr>rtick := 0\<rparr>)
          in Some s4
        }
      else Some s)"

partial_function (option) exec_loop ::
  "callbacks \<Rightarrow> mem \<Rightarrow> node_ptr \<Rightarrow> node_ptr \<Rightarrow> mem option" where
  "exec_loop cb s node safe =
     (if node = QNULL \<or> node = Task_list then Some s
      else case QTASK_ENTRY node of
             None \<Rightarrow> None
           | Some task \<Rightarrow>
               do {
                 s1 \<leftarrow> exec_task cb s task;
                 exec_loop cb s1 safe (safe_next s1 safe)
               })"

definition qtask_exec :: "callbacks \<Rightarrow> mem \<Rightarrow> mem option" where
  "qtask_exec cb s =
     (let node = next (nodes s Task_list) in exec_loop cb s node (safe_next s node))"

text \<open>
  The body of \<^verbatim>\<open>qtask_tick_increase\<close> on one task: \<^verbatim>\<open>--task->timer <= 0\<close> on the unsigned
  timer is the test for zero after the decrement.
\<close>

definition tick_task :: "mem \<Rightarrow> nat \<Rightarrow> mem" where
  "tick_task s task =
     (if timer (objs s task) > 0 then
        let s1 = upd_obj s task (\<lambda>t. t\<lparr>timer := timer t - 1\<rparr>)
        in if timer (objs s1 task) \<le> 0 then
             let s2 = upd_obj s1 task (\<lambda>t. t\<lparr>isready := 1\<rparr>);
                 s3 = s2\<lparr>run_task := Some task\<rparr>;
                 s4 = upd_obj s3 task (\<lambda>t. t\<lparr>timer := period t\<rparr>)
             in s4
           else s1
      else s)"

text \<open>
  The loop of \<^verbatim>\<open>qtask_tick_increase\<close>. The test \<^verbatim>\<open>task == QNULL\<close> of the source never
  holds for the object around a node and has no branch here. \<open>count\<close> bounds the loop.
\<close>

function tick_loop :: "mem \<Rightarrow> node_ptr \<Rightarrow> node_ptr \<Rightarrow> nat \<Rightarrow> mem option" where
  "tick_loop s node safe count =
     (if node = QNULL \<or> node = Task_list then Some s
      else if next (nodes s node) = QNULL \<or> prev (nodes s node) = QNULL then Some s
      else case QTASK_ENTRY node of
             None \<Rightarrow> None
           | Some task \<Rightarrow>
               if count + 1 > 1000 then Some (tick_task s task)
               else tick_loop (tick_task s task) safe (safe_next (tick_task s task) safe) (count + 1))"
  by pat_completeness auto
termination
  by (relation "measure (\<lambda>(s, node, safe, count). 1001 - count)") auto

definition qtask_tick_increase :: "mem \<Rightarrow> mem option" where
  "qtask_tick_increase s =
     (let node = next (nodes s Task_list) in tick_loop s node (safe_next s node) 0)"

definition runtime_task :: "mem \<Rightarrow> nat \<Rightarrow> mem" where
  "runtime_task s task =
     (if isready (objs s task) \<noteq> 0 then upd_obj s task (\<lambda>t. t\<lparr>rtick := rtick t + 1\<rparr>) else s)"

partial_function (option) runtime_loop :: "mem \<Rightarrow> node_ptr \<Rightarrow> mem option" where
  "runtime_loop s node =
     (if node = Task_list then Some s
      else case QTASK_ENTRY node of
             None \<Rightarrow> None
           | Some task \<Rightarrow> runtime_loop (runtime_task s task) (next (nodes (runtime_task s task) node)))"

definition qtask_runtime_increase :: "mem \<Rightarrow> mem option" where
  "qtask_runtime_increase s = runtime_loop s (next (nodes s Task_list))"

text \<open>
  \<^verbatim>\<open>qtask_sleep\<close> stores the timer under \<^verbatim>\<open>if(!sched->run_task)\<close>: through the null pointer
  when there is no task, and not at all when there is one.
\<close>

definition qtask_sleep :: "mem \<Rightarrow> size_t \<Rightarrow> mem option" where
  "qtask_sleep s tick =
     (if run_task s = None then
        (case run_task s of None \<Rightarrow> None | Some task \<Rightarrow> Some (upd_obj s task (\<lambda>t. t\<lparr>timer := tick\<rparr>)))
      else Some s)"

definition qtask_tick_set :: "mem \<Rightarrow> nat \<Rightarrow> size_t \<Rightarrow> mem" where
  "qtask_tick_set s obj tick = upd_obj s obj (\<lambda>t. t\<lparr>period := tick\<rparr>)"

section \<open>The lists behind the links\<close>

text \<open>
  \<open>chain h p xs q\<close>: in the node store \<open>h\<close>, the \<open>next\<close> links lead from \<open>p\<close> through the
  nodes of the tasks \<open>xs\<close>, in this order, to \<open>q\<close>, and the \<open>prev\<close> links lead back.
  \<open>dlist s list xs\<close>: the circular list with sentinel \<open>list\<close> holds exactly the tasks \<open>xs\<close>,
  each once. \<open>sched_inv s xs ys\<close>: the active list holds \<open>xs\<close>, the suspended list \<open>ys\<close>,
  and no task is in both.
\<close>

primrec chain :: "(node_ptr \<Rightarrow> QTaskList) \<Rightarrow> node_ptr \<Rightarrow> nat list \<Rightarrow> node_ptr \<Rightarrow> bool" where
  "chain h p [] q = (next (h p) = q \<and> prev (h q) = p)"
| "chain h p (x # xs) q =
     (next (h p) = Task_node x \<and> prev (h (Task_node x)) = p \<and> chain h (Task_node x) xs q)"

definition sentinel :: "node_ptr \<Rightarrow> bool" where
  "sentinel p = (p = Task_list \<or> p = Suspend_list)"

definition dlist :: "mem \<Rightarrow> node_ptr \<Rightarrow> nat list \<Rightarrow> bool" where
  "dlist s list xs = (chain (nodes s) list xs list \<and> distinct xs)"

definition sched_inv :: "mem \<Rightarrow> nat list \<Rightarrow> nat list \<Rightarrow> bool" where
  "sched_inv s xs ys =
     (dlist s Task_list xs \<and> dlist s Suspend_list ys \<and> set xs \<inter> set ys = {})"

text \<open>
  \<open>unlinked s t\<close>: the node of task \<open>t\<close> points to itself, as \<^verbatim>\<open>_list_remove\<close> leaves it, or
  has a null link, as untouched static storage has. \<open>lists_ok s xs ys\<close>: the two lists
  are well formed and disjoint, and the node of every task outside them is unlinked.
\<close>

definition unlinked :: "mem \<Rightarrow> nat \<Rightarrow> bool" where
  "unlinked s t =
     (next (nodes s (Task_node t)) = Task_node t \<and> prev (nodes s (Task_node t)) = Task_node t \<or>
      next (nodes s (Task_node t)) = QNULL \<or> prev (nodes s (Task_node t)) = QNULL)"

definition lists_ok :: "mem \<Rightarrow> nat list \<Rightarrow> nat list \<Rightarrow> bool" where
  "lists_ok s xs ys = (sched_inv s xs ys \<and> (\<forall>t. t \<notin> set xs \<longrightarrow> t \<notin> set ys \<longrightarrow> unlinked s t))"

text \<open>\<open>ids_unique s xs ys\<close>: no two listed tasks have the same id.\<close>

definition ids_unique :: "mem \<Rightarrow> nat list \<Rightarrow> nat list \<Rightarrow> bool" where
  "ids_unique s xs ys = distinct (map (\<lambda>u. id_obj (objs s u)) (xs @ ys))"

text \<open>\<open>timers_ok s\<close>: the timer of every task object is at most its period.\<close>

definition timers_ok :: "mem \<Rightarrow> bool" where
  "timers_ok s = (\<forall>t. timer (objs s t) \<le> period (objs s t))"

section \<open>What the operations do to one task object\<close>

text \<open>The eight stores at the head of \<^verbatim>\<open>qtask_add\<close>, as one update of the task object.\<close>

definition init_obj :: "QTaskObj \<Rightarrow> string option \<Rightarrow> nat \<Rightarrow> size_t \<Rightarrow> QTaskObj" where
  "init_obj t nm hdl tick = t\<lparr>name := nm, id_obj := id_calc nm, isready := 0, handle := hdl,
     timer := tick, period := tick, rtime := 0, rtick := 0\<rparr>"

text \<open>What one pass of \<^verbatim>\<open>qtask_tick_increase\<close> does to a task object.\<close>

definition tick_obj :: "QTaskObj \<Rightarrow> QTaskObj" where
  "tick_obj t = (if timer t = 0 then t
                 else if timer t = 1 then t\<lparr>isready := 1, timer := period t\<rparr>
                 else t\<lparr>timer := timer t - 1\<rparr>)"

section \<open>The execute pass in the words of the specification\<close>




definition timers_kept :: "callbacks \<Rightarrow> bool" where
  "timers_kept cb =
     (\<forall>h s s'. h \<noteq> 0 \<longrightarrow> cb h s = Some s' \<longrightarrow> timers_ok s \<longrightarrow> timers_ok s')"

section \<open>Concrete memories\<close>

text \<open>
  Memory as static storage starts out: every pointer null, every field zero. The scheduler
  at work is the result of \<^verbatim>\<open>qtask_sched_init\<close> on it.
\<close>

definition zero_mem :: mem where
  "zero_mem = \<lparr>run_task = None, nodes = (\<lambda>_. \<lparr>prev = QNULL, next = QNULL\<rparr>),
     objs = (\<lambda>_. \<lparr>name = None, id_obj = 0, isready = 0, handle = 0, timer = 0, period = 0,
                   rtime = 0, rtick = 0\<rparr>),
     calls = []\<rparr>"

text \<open>One task of period 1 after one tick: it has just expired and is the last-ready task.\<close>

definition fired_mem :: mem where
  "fired_mem = the (do {
     (r, s) \<leftarrow> qtask_add (qtask_sched_init zero_mem) 0 (Some ''a'') 7 1;
     qtask_tick_increase s
   })"


definition count_cb :: callbacks where
  "count_cb h s =
     Some (s\<lparr>objs := (\<lambda>t. if isready (objs s t) \<noteq> 0
                            then (objs s t)\<lparr>rtick := rtick (objs s t) + 1\<rparr> else objs s t)\<rparr>)"




text \<open>
  One task of period 2 after three ticks: it expired at the second, has not been executed
  and is still ready, and its timer is at 1.
\<close>

definition late_mem :: mem where
  "late_mem = the (do {
     (r, s) \<leftarrow> qtask_add (qtask_sched_init zero_mem) 0 (Some ''a'') 7 2;
     s1 \<leftarrow> qtask_tick_increase s;
     s2 \<leftarrow> qtask_tick_increase s1;
     qtask_tick_increase s2
   })"

text \<open>One task of period 3, just added to the empty scheduler.\<close>

definition added3_mem :: mem where
  "added3_mem = snd (the (qtask_add (qtask_sched_init zero_mem) 0 (Some ''a'') 7 3))"

text \<open>The task of \<open>added3_mem\<close> after one tick: its timer is at 2.\<close>

definition ticked_mem :: mem where
  "ticked_mem = the (qtask_tick_increase added3_mem)"

text \<open>
  \<open>ring_mem n\<close>: \<open>n\<close> tasks with ids \<open>0\<close> to \<open>n - 1\<close> in the active list, in this order,
  each with period 5 and its timer at 5; nothing suspended.
\<close>

definition ring_mem :: "nat \<Rightarrow> mem" where
  "ring_mem n = \<lparr>run_task = None,
     nodes = (\<lambda>p. case p of
        Task_list \<Rightarrow> \<lparr>prev = (if n = 0 then Task_list else Task_node (n - 1)),
                      next = (if n = 0 then Task_list else Task_node 0)\<rparr>
      | Task_node i \<Rightarrow> \<lparr>prev = (if i = 0 then Task_list else Task_node (i - 1)),
                        next = (if Suc i = n then Task_list else Task_node (Suc i))\<rparr>
      | _ \<Rightarrow> \<lparr>prev = p, next = p\<rparr>),
     objs = (\<lambda>i. \<lparr>name = None, id_obj = of_nat i, isready = 0, handle = 0, timer = 5, period = 5,
                   rtime = 0, rtick = 0\<rparr>),
     calls = []\<rparr>"

text \<open>
  Two names with the same id: \<^verbatim>\<open>"ar"\<close> and \<^verbatim>\<open>"bQ"\<close> both hash to 30520. \<open>pre_collide_mem\<close>:
  task 0 is added as \<^verbatim>\<open>"x"\<close>, task 1 is added as \<^verbatim>\<open>"ar"\<close> and suspended. \<open>collide_mem\<close>:
  task 0 is then added again, as \<^verbatim>\<open>"bQ"\<close>. \<open>dropped_mem\<close>: \<^verbatim>\<open>"bQ"\<close> is then suspended.
\<close>

definition pre_collide_mem :: mem where
  "pre_collide_mem = snd (the (do {
     (r1, s1) \<leftarrow> qtask_add (qtask_sched_init zero_mem) 0 (Some ''x'') 7 5;
     (r2, s2) \<leftarrow> qtask_add s1 1 (Some ''ar'') 8 3;
     qtask_suspend s2 (Some ''ar'')
   }))"

definition collide_mem :: mem where
  "collide_mem = snd (the (qtask_add pre_collide_mem 0 (Some ''bQ'') 7 5))"

definition dropped_mem :: mem where
  "dropped_mem = snd (the (qtask_suspend collide_mem (Some ''bQ'')))"

section \<open>Links and lists: auxiliary facts\<close>

declare tick_loop.simps [simp del]


lemma sentinel_simps [simp]:
  "sentinel Task_list" "sentinel Suspend_list" "\<not> sentinel QNULL" "\<not> sentinel (Task_node i)"
  by (simp_all add: sentinel_def)

lemma sentinel_neq [simp]:
  "sentinel p \<Longrightarrow> p \<noteq> Task_node i" "sentinel p \<Longrightarrow> Task_node i \<noteq> p"
  "sentinel p \<Longrightarrow> p \<noteq> QNULL" "sentinel p \<Longrightarrow> QTASK_ENTRY p = None"
  by (auto simp: sentinel_def)

lemma chain_frame:
  assumes "\<And>r. r = p \<or> r \<in> Task_node ` set xs \<Longrightarrow> next (h' r) = next (h r)"
    and "\<And>r. r = q \<or> r \<in> Task_node ` set xs \<Longrightarrow> prev (h' r) = prev (h r)"
  shows "chain h' p xs q = chain h p xs q"
  using assms
proof (induction xs arbitrary: p)
  case Nil
  then show ?case by simp
next
  case (Cons x xs)
  have "chain h' (Task_node x) xs q = chain h (Task_node x) xs q"
    by (rule Cons.IH) (auto intro: Cons.prems)
  moreover have "next (h' p) = next (h p)" "prev (h' (Task_node x)) = prev (h (Task_node x))"
    by (auto intro: Cons.prems)
  ultimately show ?case by simp
qed

lemma chain_next_mid:
  "chain h p (as @ x # bs) q \<Longrightarrow>
     next (h (Task_node x)) = (case bs of [] \<Rightarrow> q | b # _ \<Rightarrow> Task_node b)"
  by (induction as arbitrary: p) (auto split: list.splits)

lemma chain_prev_mid:
  "chain h p (as @ x # bs) q \<Longrightarrow>
     prev (h (Task_node x)) = (if as = [] then p else Task_node (last as))"
  by (induction as arbitrary: p) (auto split: list.splits)

lemma chain_unlink:
  assumes "chain h p (as @ x # bs) q" and "distinct (as @ x # bs)"
    and "p \<notin> Task_node ` set (as @ x # bs)" and "q \<notin> Task_node ` set (as @ x # bs)"
    and "next (h' (prev (h (Task_node x)))) = next (h (Task_node x))"
    and "prev (h' (next (h (Task_node x)))) = prev (h (Task_node x))"
    and "\<And>r. r \<noteq> Task_node x \<Longrightarrow> r \<noteq> prev (h (Task_node x)) \<Longrightarrow> next (h' r) = next (h r)"
    and "\<And>r. r \<noteq> Task_node x \<Longrightarrow> r \<noteq> next (h (Task_node x)) \<Longrightarrow> prev (h' r) = prev (h r)"
  shows "chain h' p (as @ bs) q"
  using assms(1-4)
proof (induction as arbitrary: p)
  case Nil
  then have px: "next (h p) = Task_node x" "prev (h (Task_node x)) = p"
    and rest: "chain h (Task_node x) bs q" by simp_all
  show ?case
  proof (cases bs)
    case Nil
    with rest have "next (h (Task_node x)) = q" by simp
    with assms(5,6) px Nil show ?thesis by simp
  next
    case (Cons b bs')
    with rest have b: "next (h (Task_node x)) = Task_node b" "chain h (Task_node b) bs' q" by simp_all
    have "chain h' (Task_node b) bs' q = chain h (Task_node b) bs' q"
    proof (rule chain_frame)
      fix r assume "r = Task_node b \<or> r \<in> Task_node ` set bs'"
      with Nil.prems Cons px show "next (h' r) = next (h r)"
        by (intro assms(7)) auto
    next
      fix r assume "r = q \<or> r \<in> Task_node ` set bs'"
      with Nil.prems Cons px b show "prev (h' r) = prev (h r)"
        by (intro assms(8)) auto
    qed
    with b assms(5,6) px Cons show ?thesis by simp
  qed
next
  case (Cons a as)
  from Cons.prems have pa: "next (h p) = Task_node a" "prev (h (Task_node a)) = p"
    and rest: "chain h (Task_node a) (as @ x # bs) q" by simp_all
  have IH: "chain h' (Task_node a) (as @ bs) q"
    using rest Cons.prems by (intro Cons.IH) auto
  have prevx: "prev (h (Task_node x)) = (if as = [] then Task_node a else Task_node (last as))"
    using rest by (rule chain_prev_mid)
  have nextx: "next (h (Task_node x)) = (case bs of [] \<Rightarrow> q | b # _ \<Rightarrow> Task_node b)"
    using rest by (rule chain_next_mid)
  have "next (h' p) = next (h p)"
    using Cons.prems prevx by (intro assms(7)) (auto split: if_splits)
  moreover have "prev (h' (Task_node a)) = prev (h (Task_node a))"
    using Cons.prems nextx by (intro assms(8)) (auto split: list.splits)
  ultimately show ?case using pa IH by simp
qed


lemma list_remove_linked:
  assumes "prev (nodes s X) = a" "next (nodes s X) = b"
    and "a \<noteq> QNULL" "b \<noteq> QNULL" "a \<noteq> X" "b \<noteq> X" "X \<noteq> QNULL"
  shows "\<exists>s'. list_remove s X = Some s' \<and> objs s' = objs s \<and> run_task s' = run_task s \<and>
           calls s' = calls s \<and> next (nodes s' a) = b \<and> prev (nodes s' b) = a \<and>
           nodes s' X = \<lparr>prev = X, next = X\<rparr> \<and>
           (\<forall>r. r \<noteq> X \<longrightarrow> (r \<noteq> a \<longrightarrow> next (nodes s' r) = next (nodes s r)) \<and>
                            (r \<noteq> b \<longrightarrow> prev (nodes s' r) = prev (nodes s r)))"
  using assms by (auto simp: list_remove_def set_prev_def set_next_def Let_def)

lemma list_insert_linked:
  assumes "next (nodes s H) = f" "f \<noteq> QNULL" "H \<noteq> QNULL" "X \<noteq> QNULL" "X \<noteq> H" "X \<noteq> f"
  shows "\<exists>s'. list_insert s H X = Some s' \<and> objs s' = objs s \<and> run_task s' = run_task s \<and>
           calls s' = calls s \<and> next (nodes s' H) = X \<and> prev (nodes s' X) = H \<and>
           next (nodes s' X) = f \<and> prev (nodes s' f) = X \<and>
           (\<forall>r. r \<noteq> X \<longrightarrow> (r \<noteq> H \<longrightarrow> next (nodes s' r) = next (nodes s r)) \<and>
                            (r \<noteq> f \<longrightarrow> prev (nodes s' r) = prev (nodes s r)))"
  using assms by (auto simp: list_insert_def set_prev_def set_next_def Let_def)

lemma chain_hd_next:
  "chain h p xs q \<Longrightarrow> next (h p) = (case xs of [] \<Rightarrow> q | x # _ \<Rightarrow> Task_node x)"
  by (cases xs) auto

lemma dlist_insert:
  assumes "dlist s H xs" "sentinel H" "x \<notin> set xs"
  shows "\<exists>s'. list_insert s H (Task_node x) = Some s' \<and> dlist s' H (x # xs) \<and>
           objs s' = objs s \<and> run_task s' = run_task s \<and> calls s' = calls s \<and>
           (\<forall>r. r \<noteq> H \<longrightarrow> r \<noteq> Task_node x \<longrightarrow> r \<notin> Task_node ` set xs \<longrightarrow>
                  next (nodes s' r) = next (nodes s r) \<and> prev (nodes s' r) = prev (nodes s r))"
proof -
  let ?X = "Task_node x" and ?f = "next (nodes s H)"
  from assms have ch: "chain (nodes s) H xs H" and dist: "distinct xs" by (simp_all add: dlist_def)
  have f: "?f = (case xs of [] \<Rightarrow> H | y # _ \<Rightarrow> Task_node y)" using ch by (rule chain_hd_next)
  have "?f \<noteq> QNULL" "H \<noteq> QNULL" "?X \<noteq> QNULL" "?X \<noteq> H" "?X \<noteq> ?f"
    using assms(2,3) f by (auto split: list.splits)
  from list_insert_linked [OF refl this] obtain s' where s':
    "list_insert s H ?X = Some s'" "objs s' = objs s" "run_task s' = run_task s" "calls s' = calls s"
    "next (nodes s' H) = ?X" "prev (nodes s' ?X) = H" "next (nodes s' ?X) = ?f" "prev (nodes s' ?f) = ?X"
    and frn: "\<And>r. r \<noteq> ?X \<Longrightarrow> r \<noteq> H \<Longrightarrow> next (nodes s' r) = next (nodes s r)"
    and frp: "\<And>r. r \<noteq> ?X \<Longrightarrow> r \<noteq> ?f \<Longrightarrow> prev (nodes s' r) = prev (nodes s r)"
    by blast
  have "chain (nodes s') ?X xs H"
  proof (cases xs)
    case Nil
    with ch s' f show ?thesis by simp
  next
    case (Cons y ys)
    with ch have y: "next (nodes s H) = Task_node y" "chain (nodes s) (Task_node y) ys H" by simp_all
    have "chain (nodes s') (Task_node y) ys H = chain (nodes s) (Task_node y) ys H"
    proof (rule chain_frame)
      fix r assume "r = Task_node y \<or> r \<in> Task_node ` set ys"
      with assms(2,3) Cons show "next (nodes s' r) = next (nodes s r)"
        by (intro frn) auto
    next
      fix r assume "r = H \<or> r \<in> Task_node ` set ys"
      with assms(2,3) Cons dist y(1) show "prev (nodes s' r) = prev (nodes s r)"
        by (intro frp) auto
    qed
    with y s' show ?thesis using Cons by simp
  qed
  with s' have "dlist s' H (x # xs)" using dist assms(3) by (simp add: dlist_def)
  moreover have "\<forall>r. r \<noteq> H \<longrightarrow> r \<noteq> ?X \<longrightarrow> r \<notin> Task_node ` set xs \<longrightarrow>
      next (nodes s' r) = next (nodes s r) \<and> prev (nodes s' r) = prev (nodes s r)"
  proof (intro allI impI conjI)
    fix r assume "r \<noteq> H" "r \<noteq> ?X" "r \<notin> Task_node ` set xs"
    then show "next (nodes s' r) = next (nodes s r)" by (intro frn)
    from \<open>r \<noteq> H\<close> \<open>r \<noteq> ?X\<close> \<open>r \<notin> Task_node ` set xs\<close> f
    show "prev (nodes s' r) = prev (nodes s r)" by (intro frp) (auto split: list.splits)
  qed
  ultimately show ?thesis using s' by blast
qed

lemma dlist_remove:
  assumes "dlist s H xs" "sentinel H" "x \<in> set xs"
  shows "\<exists>s'. list_remove s (Task_node x) = Some s' \<and> dlist s' H (remove1 x xs) \<and>
           objs s' = objs s \<and> run_task s' = run_task s \<and> calls s' = calls s \<and>
           nodes s' (Task_node x) = \<lparr>prev = Task_node x, next = Task_node x\<rparr> \<and>
           (\<forall>r. r \<noteq> H \<longrightarrow> r \<notin> Task_node ` set xs \<longrightarrow>
                  next (nodes s' r) = next (nodes s r) \<and> prev (nodes s' r) = prev (nodes s r))"
proof -
  let ?X = "Task_node x"
  from assms have ch: "chain (nodes s) H xs H" and dist: "distinct xs" by (simp_all add: dlist_def)
  from assms(3) obtain as bs where xs: "xs = as @ x # bs" by (auto simp: in_set_conv_decomp)
  with dist have rem: "remove1 x xs = as @ bs" by (simp add: remove1_append)
  have a: "prev (nodes s ?X) = (if as = [] then H else Task_node (last as))"
    using ch unfolding xs by (rule chain_prev_mid)
  have b: "next (nodes s ?X) = (case bs of [] \<Rightarrow> H | b # _ \<Rightarrow> Task_node b)"
    using ch unfolding xs by (rule chain_next_mid)
  have "prev (nodes s ?X) \<noteq> QNULL" "next (nodes s ?X) \<noteq> QNULL"
    "prev (nodes s ?X) \<noteq> ?X" "next (nodes s ?X) \<noteq> ?X" "?X \<noteq> QNULL"
    using a b assms(2) dist xs by (auto split: list.splits)
  from list_remove_linked [OF refl refl this] obtain s' where s':
    "list_remove s ?X = Some s'" "objs s' = objs s" "run_task s' = run_task s" "calls s' = calls s"
    "next (nodes s' (prev (nodes s ?X))) = next (nodes s ?X)"
    "prev (nodes s' (next (nodes s ?X))) = prev (nodes s ?X)"
    "nodes s' ?X = \<lparr>prev = ?X, next = ?X\<rparr>"
    and frn: "\<And>r. r \<noteq> ?X \<Longrightarrow> r \<noteq> prev (nodes s ?X) \<Longrightarrow> next (nodes s' r) = next (nodes s r)"
    and frp: "\<And>r. r \<noteq> ?X \<Longrightarrow> r \<noteq> next (nodes s ?X) \<Longrightarrow> prev (nodes s' r) = prev (nodes s r)"
    by blast
  have "H \<notin> Task_node ` set (as @ x # bs)" using assms(2) by auto
  with ch dist have "chain (nodes s') H (as @ bs) H"
    unfolding xs by (rule chain_unlink [where h = "nodes s" and x = x]) (use s'(5,6) frn frp assms(2) in auto)
  then have "dlist s' H (remove1 x xs)" using dist rem xs by (simp add: dlist_def)
  moreover have "\<forall>r. r \<noteq> H \<longrightarrow> r \<notin> Task_node ` set xs \<longrightarrow>
      next (nodes s' r) = next (nodes s r) \<and> prev (nodes s' r) = prev (nodes s r)"
  proof (intro allI impI conjI)
    fix r assume r: "r \<noteq> H" "r \<notin> Task_node ` set xs"
    with a xs show "next (nodes s' r) = next (nodes s r)"
      by (intro frn) (auto split: if_splits)
    from r b xs show "prev (nodes s' r) = prev (nodes s r)"
      by (intro frp) (auto split: list.splits)
  qed
  ultimately show ?thesis using s' by blast
qed

lemma dlist_frame:
  assumes "\<And>r. r = H \<or> r \<in> Task_node ` set ys \<Longrightarrow>
             next (nodes s' r) = next (nodes s r) \<and> prev (nodes s' r) = prev (nodes s r)"
  shows "dlist s' H ys = dlist s H ys"
  unfolding dlist_def using assms by (simp add: chain_frame [where h = "nodes s" and h' = "nodes s'"])

lemma isexist_chain:
  assumes "chain (nodes s) p xs list" "sentinel list"
  shows "isexist_loop s list t (next (nodes s p)) =
           Some (if \<exists>x\<in>set xs. id_obj (objs s t) = id_obj (objs s x) then 1 else 0)"
  using assms
proof (induction xs arbitrary: p)
  case Nil
  then show ?case by (simp add: isexist_loop.simps)
next
  case (Cons x xs)
  then have "isexist_loop s list t (next (nodes s (Task_node x))) =
      Some (if \<exists>x\<in>set xs. id_obj (objs s t) = id_obj (objs s x) then 1 else 0)" by simp
  with Cons.prems show ?case
    by (subst isexist_loop.simps) auto
qed


lemma upd_obj_simps [simp]:
  "nodes (upd_obj s t f) = nodes s" "run_task (upd_obj s t f) = run_task s"
  "calls (upd_obj s t f) = calls s" "objs (upd_obj s t f) = (objs s)(t := f (objs s t))"
  by (simp_all add: upd_obj_def)

lemma dlist_upd_obj [simp]: "dlist (upd_obj s t f) H xs = dlist s H xs"
  by (simp add: dlist_def)

lemma sched_inv_upd_obj [simp]: "sched_inv (upd_obj s t f) xs ys = sched_inv s xs ys"
  by (simp add: sched_inv_def)

lemma qtask_isexist_dlist:
  "dlist s Task_list xs \<Longrightarrow> qtask_isexist s t =
     Some (if \<exists>x\<in>set xs. id_obj (objs s t) = id_obj (objs s x) then 1 else 0)"
  unfolding qtask_isexist_def dlist_def by (intro isexist_chain) simp_all

lemma qdtask_isexsit_dlist:
  "dlist s Suspend_list ys \<Longrightarrow> qdtask_isexsit s t =
     Some (if \<exists>y\<in>set ys. id_obj (objs s t) = id_obj (objs s y) then 1 else 0)"
  unfolding qdtask_isexsit_def dlist_def by (intro isexist_chain) simp_all

lemma reset_remove_dlist:
  assumes "dlist s H xs" "sentinel H" "t \<in> set xs"
  shows "\<exists>s'. reset_remove s t = Some s' \<and> dlist s' H (remove1 t xs) \<and>
           objs s' = (objs s)(t := (objs s t)\<lparr>isready := 0, timer := period (objs s t)\<rparr>) \<and>
           run_task s' = run_task s \<and> calls s' = calls s \<and>
           nodes s' (Task_node t) = \<lparr>prev = Task_node t, next = Task_node t\<rparr> \<and>
           (\<forall>r. r \<noteq> H \<longrightarrow> r \<notin> Task_node ` set xs \<longrightarrow>
                  next (nodes s' r) = next (nodes s r) \<and> prev (nodes s' r) = prev (nodes s r))"
proof -
  let ?s2 = "upd_obj (upd_obj s t (\<lambda>t. t\<lparr>isready := 0\<rparr>)) t (\<lambda>t. t\<lparr>timer := period t\<rparr>)"
  have "dlist ?s2 H xs" using assms(1) by simp
  from dlist_remove [OF this assms(2,3)] show ?thesis
    by (auto simp: reset_remove_def Let_def)
qed

text \<open>Moving a task from one list to the head of the other, and inserting an unlisted one.\<close>

lemma move_between:
  assumes "dlist s H1 xs" "dlist s H2 ys" "sentinel H1" "sentinel H2" "H1 \<noteq> H2"
    and "set xs \<inter> set ys = {}" "t \<in> set ys"
  shows "\<exists>s1 s2. reset_remove s t = Some s1 \<and> list_insert s1 H1 (Task_node t) = Some s2 \<and>
           dlist s1 H1 xs \<and> dlist s1 H2 (remove1 t ys) \<and>
           dlist s2 H1 (t # xs) \<and> dlist s2 H2 (remove1 t ys) \<and>
           objs s1 = (objs s)(t := (objs s t)\<lparr>isready := 0, timer := period (objs s t)\<rparr>) \<and>
           objs s2 = objs s1 \<and> run_task s1 = run_task s \<and> run_task s2 = run_task s \<and>
           calls s1 = calls s \<and> calls s2 = calls s"
proof -
  note xs = assms(1) and ys = assms(2) and disj = assms(6)
  from reset_remove_dlist [OF ys assms(4,7)] obtain s1 where s1:
    "reset_remove s t = Some s1" "dlist s1 H2 (remove1 t ys)"
    "objs s1 = (objs s)(t := (objs s t)\<lparr>isready := 0, timer := period (objs s t)\<rparr>)"
    "run_task s1 = run_task s" "calls s1 = calls s"
    and fr1: "\<And>r. r \<noteq> H2 \<Longrightarrow> r \<notin> Task_node ` set ys \<Longrightarrow>
                next (nodes s1 r) = next (nodes s r) \<and> prev (nodes s1 r) = prev (nodes s r)"
    by auto
  have "dlist s1 H1 xs = dlist s H1 xs"
    using disj assms(3,4,5) by (intro dlist_frame fr1) auto
  with xs have xs1: "dlist s1 H1 xs" by simp
  from assms(7) disj have tx: "t \<notin> set xs" by auto
  from dlist_insert [OF xs1 assms(3) tx] obtain s2 where s2:
    "list_insert s1 H1 (Task_node t) = Some s2" "dlist s2 H1 (t # xs)"
    "objs s2 = objs s1" "run_task s2 = run_task s1" "calls s2 = calls s1"
    and fr2: "\<And>r. r \<noteq> H1 \<Longrightarrow> r \<noteq> Task_node t \<Longrightarrow> r \<notin> Task_node ` set xs \<Longrightarrow>
                next (nodes s2 r) = next (nodes s1 r) \<and> prev (nodes s2 r) = prev (nodes s1 r)"
    by auto
  from ys have dys: "distinct ys" by (simp add: dlist_def)
  have "dlist s2 H2 (remove1 t ys) = dlist s1 H2 (remove1 t ys)"
    using disj dys assms(3,4,5) by (intro dlist_frame fr2) (auto dest: notin_set_remove1)
  with s1 have ys2: "dlist s2 H2 (remove1 t ys)" by simp
  from s1 s2 xs1 ys2 show ?thesis by auto
qed

lemma insert_unlisted:
  assumes "dlist s H1 xs" "dlist s H2 ys" "sentinel H1" "sentinel H2" "H1 \<noteq> H2"
    and "t \<notin> set xs" "t \<notin> set ys" "set xs \<inter> set ys = {}"
  shows "\<exists>s2. list_insert s H1 (Task_node t) = Some s2 \<and>
           dlist s2 H1 (t # xs) \<and> dlist s2 H2 ys \<and>
           objs s2 = objs s \<and> run_task s2 = run_task s \<and> calls s2 = calls s"
proof -
  from dlist_insert [OF assms(1,3,6)] obtain s2 where s2:
    "list_insert s H1 (Task_node t) = Some s2" "dlist s2 H1 (t # xs)"
    "objs s2 = objs s" "run_task s2 = run_task s" "calls s2 = calls s"
    and fr2: "\<And>r. r \<noteq> H1 \<Longrightarrow> r \<noteq> Task_node t \<Longrightarrow> r \<notin> Task_node ` set xs \<Longrightarrow>
                next (nodes s2 r) = next (nodes s r) \<and> prev (nodes s2 r) = prev (nodes s r)"
    by auto
  have "dlist s2 H2 ys = dlist s H2 ys"
  proof (rule dlist_frame [OF fr2])
    fix r assume r: "r = H2 \<or> r \<in> Task_node ` set ys"
    with assms(5) show "r \<noteq> H1" using assms(3) by auto
    from r assms(4,7) show "r \<noteq> Task_node t" by auto
    from r assms(4,8) show "r \<notin> Task_node ` set xs" by auto
  qed
  with assms(2) s2 show ?thesis by auto
qed


lemma init_obj_reset:
  "(init_obj t nm hdl tick)\<lparr>isready := 0, timer := period (init_obj t nm hdl tick)\<rparr> =
     init_obj t nm hdl tick"
  by (cases t) (simp add: init_obj_def)

lemma sched_invD:
  "sched_inv s xs ys \<Longrightarrow> dlist s Task_list xs"
  "sched_inv s xs ys \<Longrightarrow> dlist s Suspend_list ys"
  "sched_inv s xs ys \<Longrightarrow> set xs \<inter> set ys = {}"
  by (simp_all add: sched_inv_def)

lemma add_spec:
  assumes inv: "sched_inv s xs ys"
    and nocoll: "\<forall>u\<in>set xs \<union> set ys. u \<noteq> t \<longrightarrow> id_obj (objs s u) \<noteq> id_calc nm"
  shows "\<exists>s'. qtask_add s t nm hdl tick = Some (if t \<in> set xs then 1 else 0, s') \<and>
           sched_inv s' (if t \<in> set xs then xs else t # xs) (remove1 t ys) \<and>
           objs s' = (objs s)(t := init_obj (objs s t) nm hdl tick) \<and>
           run_task s' = run_task s \<and> calls s' = calls s"
proof -
  define s0 where "s0 = upd_obj s t (\<lambda>t. t\<lparr>name := nm, id_obj := id_calc nm, isready := 0,
                 handle := hdl, timer := tick, period := tick, rtime := 0, rtick := 0\<rparr>)"
  have add: "qtask_add s t nm hdl tick = do {
        d \<leftarrow> qdtask_isexsit s0 t;
        s1 \<leftarrow> (if d \<noteq> 0 then reset_remove s0 t else Some s0);
        e \<leftarrow> qtask_isexist s1 t;
        if e = 0 then do {
          s2 \<leftarrow> list_insert s1 Task_list (Task_node t);
          Some (0, s2)
        } else Some (1, s1)
      }" unfolding qtask_add_def s0_def Let_def ..
  have o0: "objs s0 = (objs s)(t := init_obj (objs s t) nm hdl tick)"
    and r0: "run_task s0 = run_task s" "calls s0 = calls s"
    by (simp_all add: s0_def init_obj_def)
  have inv0: "sched_inv s0 xs ys" using inv by (simp add: s0_def)
  note xs0 = sched_invD(1) [OF inv0] and ys0 = sched_invD(2) [OF inv0] and disj = sched_invD(3) [OF inv0]
  have idt: "id_obj (objs s0 t) = id_calc nm" by (simp add: o0 init_obj_def)
  have idu: "id_obj (objs s0 u) \<noteq> id_calc nm" if "u \<in> set xs \<union> set ys" "u \<noteq> t" for u
    using that nocoll by (simp add: o0)
  have ex: "(\<exists>y\<in>set zs. id_calc nm = id_obj (objs s0 y)) \<longleftrightarrow> t \<in> set zs"
    if "set zs \<subseteq> set xs \<union> set ys" for zs
  proof
    assume "\<exists>y\<in>set zs. id_calc nm = id_obj (objs s0 y)"
    then obtain y where y: "y \<in> set zs" "id_calc nm = id_obj (objs s0 y)" by blast
    with that idu [of y] have "y = t" by auto
    with y show "t \<in> set zs" by simp
  next
    assume "t \<in> set zs"
    with idt show "\<exists>y\<in>set zs. id_calc nm = id_obj (objs s0 y)"
      by (intro bexI [of _ t]) simp_all
  qed
  have qd: "qdtask_isexsit s0 t = Some (if t \<in> set ys then 1 else 0)"
    unfolding qdtask_isexsit_dlist [OF ys0] idt by (simp add: ex)
  show ?thesis
  proof (cases "t \<in> set ys")
    case True
    with disj have tx: "t \<notin> set xs" by auto
    from move_between [OF xs0 ys0 _ _ _ disj True] obtain s1 s2 where m:
      "reset_remove s0 t = Some s1" "list_insert s1 Task_list (Task_node t) = Some s2"
      "dlist s1 Task_list xs" "dlist s2 Task_list (t # xs)" "dlist s2 Suspend_list (remove1 t ys)"
      "objs s1 = (objs s0)(t := (objs s0 t)\<lparr>isready := 0, timer := period (objs s0 t)\<rparr>)"
      "objs s2 = objs s1" "run_task s2 = run_task s0" "calls s2 = calls s0"
      by auto
    have o1: "objs s1 = objs s0" unfolding m(6) by (simp add: o0 init_obj_reset)
    have "qtask_isexist s1 t = Some 0"
      unfolding qtask_isexist_dlist [OF m(3)] o1 idt using tx by (simp add: ex)
    with qd True m(1,2) have "qtask_add s t nm hdl tick = Some (0, s2)" by (simp add: add)
    moreover have "sched_inv s2 (t # xs) (remove1 t ys)"
      using m(4,5) disj tx ys0 by (auto simp: sched_inv_def dlist_def dest: notin_set_remove1)
    ultimately show ?thesis using tx m(7-9) o1 o0 r0 by simp
  next
    case False
    then have rem: "remove1 t ys = ys" by (simp add: remove1_idem)
    have qe: "qtask_isexist s0 t = Some (if t \<in> set xs then 1 else 0)"
      unfolding qtask_isexist_dlist [OF xs0] idt by (simp add: ex)
    show ?thesis
    proof (cases "t \<in> set xs")
      case True
      with qd qe False have "qtask_add s t nm hdl tick = Some (1, s0)" by (simp add: add)
      with True inv0 o0 r0 rem show ?thesis by simp
    next
      case tx: False
      from insert_unlisted [OF xs0 ys0 _ _ _ tx False disj] obtain s2 where m:
        "list_insert s0 Task_list (Task_node t) = Some s2"
        "dlist s2 Task_list (t # xs)" "dlist s2 Suspend_list ys"
        "objs s2 = objs s0" "run_task s2 = run_task s0" "calls s2 = calls s0"
        by auto
      with qd qe False tx have "qtask_add s t nm hdl tick = Some (0, s2)" by (simp add: add)
      moreover have "sched_inv s2 (t # xs) ys"
        using m(2,3) disj False by (simp add: sched_inv_def)
      ultimately show ?thesis using tx m(4-6) o0 r0 rem by simp
    qed
  qed
qed


lemma del_spec:
  assumes inv: "sched_inv s xs ys"
    and nocoll: "\<forall>u\<in>set xs \<union> set ys. u \<noteq> t \<longrightarrow> id_obj (objs s u) \<noteq> id_obj (objs s t)"
  shows "\<exists>s'. qtask_del s t = Some (if t \<in> set ys then - 1 else 0, s') \<and>
           sched_inv s' (remove1 t xs) (if t \<in> set ys then ys else t # ys) \<and>
           objs s' = (if t \<in> set xs
                      then (objs s)(t := (objs s t)\<lparr>isready := 0, timer := period (objs s t)\<rparr>)
                      else objs s) \<and>
           run_task s' = run_task s \<and> calls s' = calls s"
proof -
  note xs0 = sched_invD(1) [OF inv] and ys0 = sched_invD(2) [OF inv] and disj = sched_invD(3) [OF inv]
  have ex: "(\<exists>y\<in>set zs. id_obj (objs s t) = id_obj (objs s y)) \<longleftrightarrow> t \<in> set zs"
    if "set zs \<subseteq> set xs \<union> set ys" for zs
  proof
    assume "\<exists>y\<in>set zs. id_obj (objs s t) = id_obj (objs s y)"
    then obtain y where y: "y \<in> set zs" "id_obj (objs s t) = id_obj (objs s y)" by blast
    with that nocoll have "y = t" by auto
    with y show "t \<in> set zs" by simp
  next
    assume "t \<in> set zs"
    then show "\<exists>y\<in>set zs. id_obj (objs s t) = id_obj (objs s y)"
      by (intro bexI [of _ t]) simp_all
  qed
  have qe: "qtask_isexist s t = Some (if t \<in> set xs then 1 else 0)"
    unfolding qtask_isexist_dlist [OF xs0] by (simp add: ex)
  show ?thesis
  proof (cases "t \<in> set xs")
    case True
    with disj have ty: "t \<notin> set ys" by auto
    from disj have disj': "set ys \<inter> set xs = {}" by auto
    from move_between [OF ys0 xs0 _ _ _ disj' True] obtain s1 s2 where m:
      "reset_remove s t = Some s1" "list_insert s1 Suspend_list (Task_node t) = Some s2"
      "dlist s1 Suspend_list ys" "dlist s2 Suspend_list (t # ys)" "dlist s2 Task_list (remove1 t xs)"
      "objs s1 = (objs s)(t := (objs s t)\<lparr>isready := 0, timer := period (objs s t)\<rparr>)"
      "objs s2 = objs s1" "run_task s2 = run_task s" "calls s2 = calls s"
      by auto
    have "id_obj (objs s1 u) = id_obj (objs s u)" for u
      by (simp add: m(6))
    then have "qdtask_isexsit s1 t = Some 0"
      unfolding qdtask_isexsit_dlist [OF m(3)] using ty by (simp add: ex)
    with qe True m(1,2) have "qtask_del s t = Some (0, s2)" by (simp add: qtask_del_def)
    moreover have "sched_inv s2 (remove1 t xs) (t # ys)"
      using m(4,5) disj ty xs0 by (auto simp: sched_inv_def dlist_def dest: notin_set_remove1)
    ultimately show ?thesis using True ty m(6-9) by simp
  next
    case tx: False
    then have rem: "remove1 t xs = xs" by (simp add: remove1_idem)
    have qd: "qdtask_isexsit s t = Some (if t \<in> set ys then 1 else 0)"
      unfolding qdtask_isexsit_dlist [OF ys0] by (simp add: ex)
    show ?thesis
    proof (cases "t \<in> set ys")
      case True
      with qd qe tx have "qtask_del s t = Some (- 1, s)" by (simp add: qtask_del_def)
      with True tx inv rem show ?thesis by simp
    next
      case ty: False
      from disj have disj': "set ys \<inter> set xs = {}" by auto
      from insert_unlisted [OF ys0 xs0 _ _ _ ty tx disj'] obtain s2 where m:
        "list_insert s Suspend_list (Task_node t) = Some s2"
        "dlist s2 Suspend_list (t # ys)" "dlist s2 Task_list xs"
        "objs s2 = objs s" "run_task s2 = run_task s" "calls s2 = calls s"
        by auto
      with qd qe ty tx have "qtask_del s t = Some (0, s2)" by (simp add: qtask_del_def)
      moreover have "sched_inv s2 xs (t # ys)"
        using m(2,3) disj tx by (simp add: sched_inv_def)
      ultimately show ?thesis using tx ty m(4-6) rem by simp
    qed
  qed
qed

lemma safe_next_Task_node [simp]: "safe_next s (Task_node x) = next (nodes s (Task_node x))"
  by (simp add: safe_next_def)

lemma suspend_loop_none:
  assumes "chain (nodes s) p xs Task_list" "\<forall>x\<in>set xs. id_obj (objs s x) \<noteq> i"
  shows "suspend_loop s i (next (nodes s p)) (safe_next s (next (nodes s p))) = Some (- 1, s)"
  using assms
proof (induction xs arbitrary: p)
  case Nil
  then show ?case by (simp add: suspend_loop.simps)
next
  case (Cons x xs)
  then have "suspend_loop s i (next (nodes s (Task_node x)))
      (safe_next s (next (nodes s (Task_node x)))) = Some (- 1, s)" by simp
  with Cons.prems show ?case
    by (subst suspend_loop.simps) simp
qed

lemma suspend_loop_found:
  assumes "chain (nodes s) p (as @ t # bs) Task_list" "\<forall>x\<in>set as. id_obj (objs s x) \<noteq> i"
    and "id_obj (objs s t) = i"
  shows "suspend_loop s i (next (nodes s p)) (safe_next s (next (nodes s p))) = qtask_del s t"
  using assms(1,2)
proof (induction as arbitrary: p)
  case Nil
  with assms(3) show ?case
    by (subst suspend_loop.simps) (simp add: qtask_del_def)
next
  case (Cons x xs)
  then have "suspend_loop s i (next (nodes s (Task_node x)))
      (safe_next s (next (nodes s (Task_node x)))) = qtask_del s t" by simp
  with Cons.prems show ?case
    by (subst suspend_loop.simps) simp
qed

lemma resume_loop_none:
  assumes "chain (nodes s) p ys Suspend_list" "\<forall>y\<in>set ys. id_obj (objs s y) \<noteq> i"
  shows "resume_loop s i (next (nodes s p)) (safe_next s (next (nodes s p))) = Some (- 1, s)"
  using assms
proof (induction ys arbitrary: p)
  case Nil
  then show ?case by (simp add: resume_loop.simps)
next
  case (Cons y ys)
  then have "resume_loop s i (next (nodes s (Task_node y)))
      (safe_next s (next (nodes s (Task_node y)))) = Some (- 1, s)" by simp
  with Cons.prems show ?case
    by (subst resume_loop.simps) simp
qed

lemma resume_loop_found:
  assumes "chain (nodes s) p (as @ t # bs) Suspend_list" "\<forall>y\<in>set as. id_obj (objs s y) \<noteq> i"
    and "id_obj (objs s t) = i"
  shows "resume_loop s i (next (nodes s p)) (safe_next s (next (nodes s p))) =
     do {
       d \<leftarrow> qdtask_isexsit s t;
       s1 \<leftarrow> (if d \<noteq> 0 then reset_remove s t else Some s);
       e \<leftarrow> qtask_isexist s1 t;
       if e = 0 then do {
         s2 \<leftarrow> list_insert s1 Task_list (Task_node t);
         Some (0, s2)
       } else resume_loop s1 i (next (nodes s (Task_node t)))
                (safe_next s1 (next (nodes s (Task_node t))))
     }"
  using assms(1,2)
proof (induction as arbitrary: p)
  case Nil
  with assms(3) show ?case
    by (subst resume_loop.simps) (simp cong: if_cong)
next
  case (Cons y ys)
  from Cons.prems have "resume_loop s i (next (nodes s (Task_node y)))
      (safe_next s (next (nodes s (Task_node y)))) =
     do {
       d \<leftarrow> qdtask_isexsit s t;
       s1 \<leftarrow> (if d \<noteq> 0 then reset_remove s t else Some s);
       e \<leftarrow> qtask_isexist s1 t;
       if e = 0 then do {
         s2 \<leftarrow> list_insert s1 Task_list (Task_node t);
         Some (0, s2)
       } else resume_loop s1 i (next (nodes s (Task_node t)))
                (safe_next s1 (next (nodes s (Task_node t))))
     }" by (intro Cons.IH) simp_all
  with Cons.prems show ?case
    by (subst resume_loop.simps) simp
qed


lemma suspend_none_spec:
  assumes "dlist s Task_list xs" "\<forall>x\<in>set xs. id_obj (objs s x) \<noteq> id_calc nm"
  shows "qtask_suspend s nm = Some (- 1, s)"
  using assms suspend_loop_none [of s Task_list xs "id_calc nm"]
  by (simp add: qtask_suspend_def dlist_def Let_def)

lemma resume_none_spec:
  assumes "dlist s Suspend_list ys" "\<forall>y\<in>set ys. id_obj (objs s y) \<noteq> id_calc nm"
  shows "qtask_resume s nm = Some (- 1, s)"
  using assms resume_loop_none [of s Suspend_list ys "id_calc nm"]
  by (simp add: qtask_resume_def dlist_def Let_def)

lemma suspend_found_spec:
  assumes inv: "sched_inv s xs ys" and t: "t \<in> set xs" "id_obj (objs s t) = id_calc nm"
    and nocoll: "\<forall>u\<in>set xs \<union> set ys. u \<noteq> t \<longrightarrow> id_obj (objs s u) \<noteq> id_calc nm"
  shows "\<exists>s'. qtask_suspend s nm = Some (0, s') \<and> sched_inv s' (remove1 t xs) (t # ys) \<and>
           objs s' = (objs s)(t := (objs s t)\<lparr>isready := 0, timer := period (objs s t)\<rparr>) \<and>
           run_task s' = run_task s \<and> calls s' = calls s"
proof -
  note xs0 = sched_invD(1) [OF inv] and disj = sched_invD(3) [OF inv]
  from t(1) obtain as bs where xs: "xs = as @ t # bs" by (auto simp: in_set_conv_decomp)
  from xs0 have d: "distinct xs" and ch: "chain (nodes s) Task_list (as @ t # bs) Task_list"
    by (simp_all add: dlist_def xs)
  have "\<forall>x\<in>set as. id_obj (objs s x) \<noteq> id_calc nm"
    using nocoll d xs by auto
  from suspend_loop_found [OF ch this t(2)]
  have "qtask_suspend s nm = qtask_del s t" by (simp add: qtask_suspend_def Let_def)
  moreover from t disj have "t \<notin> set ys" by auto
  moreover note del_spec [OF inv, of t] nocoll t
  ultimately show ?thesis by auto
qed

lemma resume_found_spec:
  assumes inv: "sched_inv s xs ys" and t: "t \<in> set ys" "id_obj (objs s t) = id_calc nm"
    and nocoll: "\<forall>u\<in>set xs \<union> set ys. u \<noteq> t \<longrightarrow> id_obj (objs s u) \<noteq> id_calc nm"
  shows "\<exists>s'. qtask_resume s nm = Some (0, s') \<and> sched_inv s' (t # xs) (remove1 t ys) \<and>
           objs s' = (objs s)(t := (objs s t)\<lparr>isready := 0, timer := period (objs s t)\<rparr>) \<and>
           run_task s' = run_task s \<and> calls s' = calls s"
proof -
  note xs0 = sched_invD(1) [OF inv] and ys0 = sched_invD(2) [OF inv] and disj = sched_invD(3) [OF inv]
  from t(1) obtain as bs where ys: "ys = as @ t # bs" by (auto simp: in_set_conv_decomp)
  from ys0 have d: "distinct ys" and ch: "chain (nodes s) Suspend_list (as @ t # bs) Suspend_list"
    by (simp_all add: dlist_def ys)
  have as: "\<forall>y\<in>set as. id_obj (objs s y) \<noteq> id_calc nm"
    using nocoll d ys by auto
  from t disj have tx: "t \<notin> set xs" by auto
  have qd: "qdtask_isexsit s t = Some 1"
    unfolding qdtask_isexsit_dlist [OF ys0] using t(1) by auto
  from move_between [OF xs0 ys0 _ _ _ disj t(1)] obtain s1 s2 where m:
    "reset_remove s t = Some s1" "list_insert s1 Task_list (Task_node t) = Some s2"
    "dlist s1 Task_list xs" "dlist s2 Task_list (t # xs)" "dlist s2 Suspend_list (remove1 t ys)"
    "objs s1 = (objs s)(t := (objs s t)\<lparr>isready := 0, timer := period (objs s t)\<rparr>)"
    "objs s2 = objs s1" "run_task s2 = run_task s" "calls s2 = calls s"
    by auto
  have ids: "id_obj (objs s1 u) = id_obj (objs s u)" for u by (simp add: m(6))
  have "\<not> (\<exists>x\<in>set xs. id_obj (objs s t) = id_obj (objs s x))"
    using nocoll tx t(2) by auto
  then have qe: "qtask_isexist s1 t = Some 0"
    unfolding qtask_isexist_dlist [OF m(3)] ids by simp
  have "qtask_resume s nm = Some (0, s2)"
    unfolding qtask_resume_def Let_def resume_loop_found [OF ch as t(2)]
    by (simp add: qd m(1,2) qe)
  moreover have "sched_inv s2 (t # xs) (remove1 t ys)"
    using m(4,5) disj tx d by (auto simp: sched_inv_def dest: notin_set_remove1)
  ultimately show ?thesis using m(6-9) by simp
qed

section \<open>Evaluating concrete runs\<close>

lemmas run_defs =
  zero_mem_def qtask_sched_init_def qtask_add_def qtask_del_def qtask_suspend_def
  qtask_resume_def qtask_isexist_def qdtask_isexsit_def
  qtask_tick_increase_def qtask_exec_def qtask_sleep_def qtask_tick_set_def
  reset_remove_def list_insert_def list_remove_def set_prev_def set_next_def upd_obj_def
  safe_next_def tick_task_def exec_task_def call_handle_def id_calc_def Let_def
  isexist_loop.simps suspend_loop.simps resume_loop.simps exec_loop.simps tick_loop.simps

section \<open>The passes over the active list\<close>

lemma word_gt0_le0: "(0 < (w::size_t)) = (w \<noteq> 0)" "(w \<le> 0) = (w = 0)"
  by (simp_all add: word_gt_0)

lemma tick_task_simps [simp]:
  "nodes (tick_task s t) = nodes s" "calls (tick_task s t) = calls s"
  "objs (tick_task s t) = (objs s)(t := tick_obj (objs s t))"
  "run_task (tick_task s t) = (if timer (objs s t) = 1 then Some t else run_task s)"
  by (cases "objs s t"; auto simp: tick_task_def tick_obj_def Let_def word_gt0_le0)+

lemma runtime_task_simps [simp]:
  "nodes (runtime_task s t) = nodes s" "run_task (runtime_task s t) = run_task s"
  "calls (runtime_task s t) = calls s"
  by (simp_all add: runtime_task_def)

lemma runtime_loop_chain:
  assumes "chain (nodes s) p xs Task_list"
  shows "runtime_loop s (next (nodes s p)) = Some (foldl runtime_task s xs)"
  using assms
proof (induction xs arbitrary: s p)
  case Nil
  then show ?case by (simp add: runtime_loop.simps)
next
  case (Cons x xs)
  from Cons.prems have "chain (nodes (runtime_task s x)) (Task_node x) xs Task_list" by simp
  from Cons.IH [OF this] Cons.prems show ?case
    by (subst runtime_loop.simps) simp
qed

lemma chain_next_not_null: "chain h p xs Task_list \<Longrightarrow> next (h p) \<noteq> QNULL"
  by (cases xs) auto

lemma tick_loop_chain:
  assumes "chain (nodes s) p xs Task_list" "p \<noteq> QNULL" "count \<le> 1000"
  shows "tick_loop s (next (nodes s p)) (safe_next s (next (nodes s p))) count =
           Some (foldl tick_task s (take (1001 - count) xs))"
  using assms
proof (induction xs arbitrary: s p count)
  case Nil
  then show ?case by (simp add: tick_loop.simps)
next
  case (Cons x xs)
  from Cons.prems have ch: "chain (nodes (tick_task s x)) (Task_node x) xs Task_list" by simp
  from Cons.prems have nn: "next (nodes s (Task_node x)) \<noteq> QNULL" "prev (nodes s (Task_node x)) \<noteq> QNULL"
    by (auto dest: chain_next_not_null)
  from Cons.prems obtain k where k: "1001 - count = Suc k" "k = 1000 - count"
    by (cases "1001 - count") auto
  show ?case
  proof (cases "count = 1000")
    case True
    with Cons.prems nn k show ?thesis
      by (subst tick_loop.simps) simp
  next
    case False
    with Cons.prems have "Suc count \<le> 1000" by simp
    from Cons.IH [OF ch _ this] have "tick_loop (tick_task s x) (next (nodes s (Task_node x)))
        (safe_next (tick_task s x) (next (nodes s (Task_node x)))) (Suc count) =
        Some (foldl tick_task (tick_task s x) (take (1001 - Suc count) xs))" by simp
    moreover have "1001 - Suc count = k" using k by simp
    ultimately show ?thesis using Cons.prems nn k False
      by (subst tick_loop.simps) (simp add: safe_next_def)
  qed
qed

lemma qtask_tick_increase_dlist:
  "dlist s Task_list xs \<Longrightarrow> qtask_tick_increase s = Some (foldl tick_task s (take 1001 xs))"
  using tick_loop_chain [of s Task_list xs 0] by (simp add: qtask_tick_increase_def dlist_def Let_def)

lemma qtask_runtime_increase_dlist:
  "dlist s Task_list xs \<Longrightarrow> qtask_runtime_increase s = Some (foldl runtime_task s xs)"
  using runtime_loop_chain [of s Task_list xs] by (simp add: qtask_runtime_increase_def dlist_def)

lemma foldl_tick_nodes [simp]:
  "nodes (foldl tick_task s xs) = nodes s" "calls (foldl tick_task s xs) = calls s"
  by (induction xs arbitrary: s) simp_all

lemma foldl_tick_objs:
  "distinct xs \<Longrightarrow> objs (foldl tick_task s xs) t =
     (if t \<in> set xs then tick_obj (objs s t) else objs s t)"
  by (induction xs arbitrary: s) auto

lemma foldl_tick_run_task:
  "distinct xs \<Longrightarrow> run_task (foldl tick_task s xs) =
     (case filter (\<lambda>x. timer (objs s x) = 1) xs of [] \<Rightarrow> run_task s | ys \<Rightarrow> Some (last ys))"
proof (induction xs rule: rev_induct)
  case Nil
  then show ?case by simp
next
  case (snoc x xs)
  then have "objs (foldl tick_task s xs) x = objs s x" by (simp add: foldl_tick_objs)
  with snoc show ?case by (auto split: list.splits)
qed

lemma ring_chain:
  "k \<le> n \<Longrightarrow> chain (nodes (ring_mem n)) (if k = 0 then Task_list else Task_node (k - 1))
     [k..<n] Task_list"
proof (induction "n - k" arbitrary: k)
  case 0
  then show ?case by (auto simp: ring_mem_def)
next
  case (Suc d)
  then have "k < n" "Suc k \<le> n" "d = n - Suc k" by simp_all
  from Suc.hyps(1) [OF this(3,2)] \<open>k < n\<close> show ?case
    by (auto simp: upt_conv_Cons ring_mem_def)
qed

lemma ring_dlist: "dlist (ring_mem n) Task_list [0..<n]"
  using ring_chain [of 0 n] by (simp add: dlist_def)

lemma tick_spec:
  assumes "dlist s Task_list xs"
  shows "qtask_tick_increase s = Some (foldl tick_task s (take 1001 xs))"
    and "dlist (foldl tick_task s (take 1001 xs)) Task_list xs"
    and "objs (foldl tick_task s (take 1001 xs)) t =
           (if t \<in> set (take 1001 xs) then tick_obj (objs s t) else objs s t)"
  using assms by (simp_all add: qtask_tick_increase_dlist dlist_def foldl_tick_objs)

lemma tick_obj_cases:
  "timer t = 0 \<Longrightarrow> tick_obj t = t"
  "timer t = 1 \<Longrightarrow> tick_obj t = t\<lparr>isready := 1, timer := period t\<rparr>"
  "1 < timer t \<Longrightarrow> tick_obj t = t\<lparr>timer := timer t - 1\<rparr>"
  by (auto simp: tick_obj_def)

lemma in_take_mono: "t \<in> set (take 1000 xs) \<Longrightarrow> t \<in> set (take 1001 xs)"
  using set_take_subset_set_take [of 1000 1001 xs] by auto

lemma filter_less_upt: "filter (\<lambda>t. t < k) [0..<n] = [0..<min k n]"
proof (induction n)
  case 0
  then show ?case by simp
next
  case (Suc n)
  show ?case
  proof (cases "n < k")
    case True
    then have "min k (Suc n) = Suc (min k n)" by (simp add: min_def)
    with Suc True show ?thesis by (simp add: min_def)
  next
    case False
    with Suc show ?thesis by (simp add: min_def)
  qed
qed

section \<open>The execute pass over the active list\<close>

lemma exec_task_cases:
  "exec_task cb s t =
     (if isready (objs s t) \<noteq> 0 then
        (case call_handle cb s (handle (objs s t)) of
           None \<Rightarrow> None
         | Some m \<Rightarrow>
             Some (m\<lparr>objs := (objs m)(t := (objs m t)\<lparr>rtime := rtick (objs m t), isready := 0,
                                                      rtick := 0\<rparr>)\<rparr>))
      else Some s)"
  by (simp add: exec_task_def upd_obj_def Let_def split: option.splits)









section \<open>The runs with two names of one id\<close>

lemmas inv_defs = sched_inv_def dlist_def ids_unique_def

lemma added3_eval:
  "sched_inv added3_mem [0] []" "ids_unique added3_mem [0] []"
  "objs added3_mem 0 = \<lparr>name = Some ''a'', id_obj = id_calc (Some ''a''), isready = 0, handle = 7,
     timer = 3, period = 3, rtime = 0, rtick = 0\<rparr>"
  by (simp_all add: added3_mem_def run_defs inv_defs)

lemma pre_collide_eval:
  "sched_inv pre_collide_mem [0] [1]"
  "id_obj (objs pre_collide_mem 0) = id_calc (Some ''x'')"
  "id_obj (objs pre_collide_mem 1) = id_calc (Some ''ar'')"
  by (simp_all add: pre_collide_mem_def run_defs inv_defs)

lemma collide_eval:
  "qtask_add pre_collide_mem 0 (Some ''bQ'') 7 5 = Some (0, collide_mem)"
  "sched_inv collide_mem [0] [1]"
  "id_obj (objs collide_mem 0) = id_calc (Some ''bQ'')"
  "id_obj (objs collide_mem 1) = id_calc (Some ''bQ'')"
  "name (objs collide_mem 0) = Some ''bQ''" "name (objs collide_mem 1) = Some ''ar''"
  by (simp_all add: collide_mem_def pre_collide_mem_def run_defs inv_defs)

lemma dropped_eval:
  "qtask_suspend collide_mem (Some ''bQ'') = Some (- 1, dropped_mem)"
  "sched_inv dropped_mem [] [1]"
  "nodes dropped_mem (Task_node 0) = \<lparr>prev = Task_node 0, next = Task_node 0\<rparr>"
  by (simp_all add: dropped_mem_def collide_mem_def pre_collide_mem_def run_defs inv_defs)

lemma chain_unique:
  assumes "chain h p xs q" "chain h p ys q" "\<And>i. q \<noteq> Task_node i"
  shows "xs = ys"
  using assms
proof (induction xs arbitrary: p ys)
  case Nil
  show ?case
  proof (cases ys)
    case (Cons y ys')
    with Nil.prems have "q = Task_node y" by simp
    with Nil.prems(3) [of y] show ?thesis by blast
  qed simp
next
  case (Cons x xs)
  show ?case
  proof (cases ys)
    case Nil
    with Cons.prems have "q = Task_node x" by simp
    with Cons.prems(3) [of x] show ?thesis by blast
  next
    case (Cons y ys')
    with Cons.prems have "x = y" "chain h (Task_node x) xs q" "chain h (Task_node x) ys' q"
      by simp_all
    with Cons.IH [of "Task_node x" ys'] Cons.prems(3) Cons show ?thesis by simp
  qed
qed

lemma dlist_unique: "dlist s H xs \<Longrightarrow> dlist s H ys \<Longrightarrow> sentinel H \<Longrightarrow> xs = ys"
  unfolding dlist_def by (blast intro: chain_unique dest: sentinel_neq(1))

lemma qtask_del_refused:
  "qtask_isexist s t = Some 0 \<Longrightarrow> qdtask_isexsit s t = Some 1 \<Longrightarrow> qtask_del s t = Some (- 1, s)"
  by (simp add: qtask_del_def)

section \<open>The four operations without collisions\<close>

lemma ids_unique_inj:
  "sched_inv s xs ys \<Longrightarrow>
     ids_unique s xs ys = inj_on (\<lambda>u. id_obj (objs s u)) (set xs \<union> set ys)"
proof -
  assume "sched_inv s xs ys"
  then have "distinct (xs @ ys)" by (auto simp: sched_inv_def dlist_def)
  then show ?thesis
    unfolding ids_unique_def distinct_map by simp
qed

lemma ids_unique_other:
  assumes "sched_inv s xs ys" "ids_unique s xs ys" "t \<in> set xs \<union> set ys"
    and "u \<in> set xs \<union> set ys" "u \<noteq> t"
  shows "id_obj (objs s u) \<noteq> id_obj (objs s t)"
  using assms by (auto simp: ids_unique_inj inj_on_def)

lemma ids_unique_moved:
  assumes "sched_inv s xs ys" "ids_unique s xs ys" "sched_inv s' xs' ys'"
    and "set xs' \<union> set ys' = set xs \<union> set ys" "\<And>u. id_obj (objs s' u) = id_obj (objs s u)"
  shows "ids_unique s' xs' ys'"
  using assms by (simp add: ids_unique_inj)

text \<open>
  Without collisions: when the listed tasks have pairwise different ids, each of the four
  operations returns, keeps every listed task in a list and keeps the ids different.
\<close>

lemma no_collision_steps:
  assumes inv: "sched_inv s xs ys" and ids: "ids_unique s xs ys"
  shows "(\<forall>t nm hdl tick.
            (\<forall>u\<in>set xs \<union> set ys. u \<noteq> t \<longrightarrow> id_obj (objs s u) \<noteq> id_calc nm) \<longrightarrow>
            (\<exists>r s' xs' ys'. qtask_add s t nm hdl tick = Some (r, s') \<and> sched_inv s' xs' ys' \<and>
               ids_unique s' xs' ys' \<and> set xs' \<union> set ys' = insert t (set xs \<union> set ys))) \<and>
         (\<forall>t. (\<forall>u\<in>set xs \<union> set ys. u \<noteq> t \<longrightarrow> id_obj (objs s u) \<noteq> id_obj (objs s t)) \<longrightarrow>
            (\<exists>r s' xs' ys'. qtask_del s t = Some (r, s') \<and> sched_inv s' xs' ys' \<and>
               ids_unique s' xs' ys' \<and> set xs' \<union> set ys' = insert t (set xs \<union> set ys))) \<and>
         (\<forall>nm. \<exists>r s' xs' ys'. qtask_suspend s nm = Some (r, s') \<and> sched_inv s' xs' ys' \<and>
               ids_unique s' xs' ys' \<and> set xs' \<union> set ys' = set xs \<union> set ys) \<and>
         (\<forall>nm. \<exists>r s' xs' ys'. qtask_resume s nm = Some (r, s') \<and> sched_inv s' xs' ys' \<and>
               ids_unique s' xs' ys' \<and> set xs' \<union> set ys' = set xs \<union> set ys)"
proof (intro conjI allI impI)
  fix t nm hdl tick
  assume nocoll: "\<forall>u\<in>set xs \<union> set ys. u \<noteq> t \<longrightarrow> id_obj (objs s u) \<noteq> id_calc nm"
  let ?xs' = "if t \<in> set xs then xs else t # xs" and ?ys' = "remove1 t ys"
  from add_spec [OF inv nocoll, of hdl tick] obtain s' where s':
    "qtask_add s t nm hdl tick = Some (if t \<in> set xs then 1 else 0, s')"
    "sched_inv s' ?xs' ?ys'" "objs s' = (objs s)(t := init_obj (objs s t) nm hdl tick)"
    by blast
  from inv have dys: "distinct ys" and disj: "set xs \<inter> set ys = {}"
    by (simp_all add: sched_inv_def dlist_def)
  have sets: "set ?xs' \<union> set ?ys' = insert t (set xs \<union> set ys)"
    using dys disj by auto
  have "inj_on (\<lambda>u. id_obj (objs s' u)) (insert t (set xs \<union> set ys))"
  proof (rule inj_onI)
    fix u v
    assume uv: "u \<in> insert t (set xs \<union> set ys)" "v \<in> insert t (set xs \<union> set ys)"
      "id_obj (objs s' u) = id_obj (objs s' v)"
    have idt: "id_obj (objs s' t) = id_calc nm" by (simp add: s'(3) init_obj_def)
    have ido: "id_obj (objs s' w) = id_obj (objs s w)" if "w \<noteq> t" for w
      using that by (simp add: s'(3))
    show "u = v"
    proof (cases "u = t \<or> v = t")
      case True
      with uv nocoll idt ido show ?thesis by (metis insertE)
    next
      case False
      with uv ido have "u \<in> set xs \<union> set ys" "v \<in> set xs \<union> set ys"
        "id_obj (objs s u) = id_obj (objs s v)" by auto
      with ids inv show ?thesis by (auto simp: ids_unique_inj inj_on_def)
    qed
  qed
  with s'(2) sets have "ids_unique s' ?xs' ?ys'" by (simp add: ids_unique_inj)
  with s'(1,2) sets
  show "\<exists>r s' xs' ys'. qtask_add s t nm hdl tick = Some (r, s') \<and> sched_inv s' xs' ys' \<and>
          ids_unique s' xs' ys' \<and> set xs' \<union> set ys' = insert t (set xs \<union> set ys)"
    by blast
next
  fix t
  assume nocoll: "\<forall>u\<in>set xs \<union> set ys. u \<noteq> t \<longrightarrow> id_obj (objs s u) \<noteq> id_obj (objs s t)"
  let ?xs' = "remove1 t xs" and ?ys' = "if t \<in> set ys then ys else t # ys"
  from del_spec [OF inv nocoll] obtain s' where s':
    "qtask_del s t = Some (if t \<in> set ys then - 1 else 0, s')" "sched_inv s' ?xs' ?ys'"
    "objs s' = (if t \<in> set xs
                then (objs s)(t := (objs s t)\<lparr>isready := 0, timer := period (objs s t)\<rparr>)
                else objs s)"
    by blast
  from inv have dxs: "distinct xs" and disj: "set xs \<inter> set ys = {}"
    by (simp_all add: sched_inv_def dlist_def)
  have sets: "set ?xs' \<union> set ?ys' = insert t (set xs \<union> set ys)"
    using dxs disj by auto
  have ido: "id_obj (objs s' w) = id_obj (objs s w)" for w by (simp add: s'(3))
  have "inj_on (\<lambda>u. id_obj (objs s u)) (insert t (set xs \<union> set ys))"
  proof (rule inj_onI)
    fix u v
    assume uv: "u \<in> insert t (set xs \<union> set ys)" "v \<in> insert t (set xs \<union> set ys)"
      "id_obj (objs s u) = id_obj (objs s v)"
    show "u = v"
    proof (cases "u = t \<or> v = t")
      case True
      with uv nocoll show ?thesis by (metis insertE)
    next
      case False
      with uv have "u \<in> set xs \<union> set ys" "v \<in> set xs \<union> set ys" by auto
      with uv(3) ids inv show ?thesis by (auto simp: ids_unique_inj inj_on_def)
    qed
  qed
  with s'(2) sets have "ids_unique s' ?xs' ?ys'" by (simp add: ids_unique_inj ido)
  with s'(1,2) sets
  show "\<exists>r s' xs' ys'. qtask_del s t = Some (r, s') \<and> sched_inv s' xs' ys' \<and>
          ids_unique s' xs' ys' \<and> set xs' \<union> set ys' = insert t (set xs \<union> set ys)"
    by blast
next
  fix nm
  from inv have dxs: "distinct xs" and disj: "set xs \<inter> set ys = {}"
    and xs0: "dlist s Task_list xs" by (simp_all add: sched_inv_def dlist_def)
  show "\<exists>r s' xs' ys'. qtask_suspend s nm = Some (r, s') \<and> sched_inv s' xs' ys' \<and>
          ids_unique s' xs' ys' \<and> set xs' \<union> set ys' = set xs \<union> set ys"
  proof (cases "\<exists>t\<in>set xs. id_obj (objs s t) = id_calc nm")
    case True
    then obtain t where t: "t \<in> set xs" "id_obj (objs s t) = id_calc nm" by blast
    have nocoll: "\<forall>u\<in>set xs \<union> set ys. u \<noteq> t \<longrightarrow> id_obj (objs s u) \<noteq> id_calc nm"
      using ids_unique_other [OF inv ids, of t] t by auto
    from suspend_found_spec [OF inv t nocoll] obtain s' where s':
      "qtask_suspend s nm = Some (0, s')" "sched_inv s' (remove1 t xs) (t # ys)"
      "objs s' = (objs s)(t := (objs s t)\<lparr>isready := 0, timer := period (objs s t)\<rparr>)"
      by blast
    have sets: "set (remove1 t xs) \<union> set (t # ys) = set xs \<union> set ys"
      using dxs t(1) by auto
    have "id_obj (objs s' u) = id_obj (objs s u)" for u by (simp add: s'(3))
    from ids_unique_moved [OF inv ids s'(2) sets this] s'(1,2) sets show ?thesis by blast
  next
    case False
    then have "qtask_suspend s nm = Some (- 1, s)"
      by (intro suspend_none_spec [OF xs0]) auto
    with inv ids show ?thesis by blast
  qed
next
  fix nm
  from inv have dys: "distinct ys" and disj: "set xs \<inter> set ys = {}"
    and ys0: "dlist s Suspend_list ys" by (simp_all add: sched_inv_def dlist_def)
  show "\<exists>r s' xs' ys'. qtask_resume s nm = Some (r, s') \<and> sched_inv s' xs' ys' \<and>
          ids_unique s' xs' ys' \<and> set xs' \<union> set ys' = set xs \<union> set ys"
  proof (cases "\<exists>t\<in>set ys. id_obj (objs s t) = id_calc nm")
    case True
    then obtain t where t: "t \<in> set ys" "id_obj (objs s t) = id_calc nm" by blast
    have nocoll: "\<forall>u\<in>set xs \<union> set ys. u \<noteq> t \<longrightarrow> id_obj (objs s u) \<noteq> id_calc nm"
      using ids_unique_other [OF inv ids, of t] t by auto
    from resume_found_spec [OF inv t nocoll] obtain s' where s':
      "qtask_resume s nm = Some (0, s')" "sched_inv s' (t # xs) (remove1 t ys)"
      "objs s' = (objs s)(t := (objs s t)\<lparr>isready := 0, timer := period (objs s t)\<rparr>)"
      by blast
    have sets: "set (t # xs) \<union> set (remove1 t ys) = set xs \<union> set ys"
      using dys t(1) by auto
    have "id_obj (objs s' u) = id_obj (objs s u)" for u by (simp add: s'(3))
    from ids_unique_moved [OF inv ids s'(2) sets this] s'(1,2) sets show ?thesis by blast
  next
    case False
    then have "qtask_resume s nm = Some (- 1, s)"
      by (intro resume_none_spec [OF ys0]) auto
    with inv ids show ?thesis by blast
  qed
qed

section \<open>The timer bound, operation by operation\<close>

lemma list_insert_objs: "list_insert s H X = Some s' \<Longrightarrow> objs s' = objs s"
  by (auto simp: list_insert_def set_prev_def set_next_def Let_def split: if_splits)

lemma list_remove_objs: "list_remove s X = Some s' \<Longrightarrow> objs s' = objs s"
  by (auto simp: list_remove_def set_prev_def set_next_def Let_def split: if_splits)

lemma reset_remove_timers: "reset_remove s t = Some s' \<Longrightarrow> timers_ok s \<Longrightarrow> timers_ok s'"
  by (auto simp: reset_remove_def Let_def timers_ok_def dest!: list_remove_objs)

lemma list_insert_timers: "list_insert s H X = Some s' \<Longrightarrow> timers_ok s \<Longrightarrow> timers_ok s'"
  by (auto simp: timers_ok_def dest!: list_insert_objs)

lemma qtask_add_timers:
  assumes "qtask_add s t nm hdl tick = Some (r, s')" "timers_ok s"
  shows "timers_ok s'"
proof -
  have "timers_ok (upd_obj s t (\<lambda>t. t\<lparr>name := nm, id_obj := id_calc nm, isready := 0,
                 handle := hdl, timer := tick, period := tick, rtime := 0, rtick := 0\<rparr>))"
    using assms(2) by (simp add: timers_ok_def)
  with assms(1) show ?thesis
    by (auto simp: qtask_add_def Let_def split: bind_splits if_splits
          dest: reset_remove_timers list_insert_timers)
qed

lemma qtask_del_timers:
  assumes "qtask_del s t = Some (r, s')" "timers_ok s"
  shows "timers_ok s'"
  using assms
  by (auto simp: qtask_del_def split: bind_splits if_splits
        dest: reset_remove_timers list_insert_timers)

lemma suspend_loop_timers:
  assumes "suspend_loop s i node safe = Some y"
  shows "timers_ok s \<longrightarrow> timers_ok (snd y)"
  by (rule suspend_loop.raw_induct
        [where P = "\<lambda>s i node safe y. timers_ok s \<longrightarrow> timers_ok (snd y)", OF _ assms])
     (auto split: if_splits option.splits bind_splits
        dest: reset_remove_timers list_insert_timers)

lemma resume_loop_timers:
  assumes "resume_loop s i node safe = Some y"
  shows "timers_ok s \<longrightarrow> timers_ok (snd y)"
  by (rule resume_loop.raw_induct
        [where P = "\<lambda>s i node safe y. timers_ok s \<longrightarrow> timers_ok (snd y)", OF _ assms])
     (auto split: if_splits option.splits bind_splits
        dest: reset_remove_timers list_insert_timers)

lemma word_pred_le: "(w::size_t) \<noteq> 0 \<Longrightarrow> w \<le> p \<Longrightarrow> w - 1 \<le> p"
  by unat_arith

lemma tick_task_timers: "timers_ok s \<Longrightarrow> timers_ok (tick_task s t)"
  by (auto simp: timers_ok_def tick_obj_def word_pred_le)

lemma exec_task_timers:
  assumes "timers_kept cb" "exec_task cb s t = Some s'" "timers_ok s"
  shows "timers_ok s'"
proof (cases "isready (objs s t) = 0")
  case True
  with assms show ?thesis by (simp add: exec_task_cases)
next
  case False
  with assms(2) obtain m where m: "call_handle cb s (handle (objs s t)) = Some m"
    "s' = m\<lparr>objs := (objs m)(t := (objs m t)\<lparr>rtime := rtick (objs m t), isready := 0,
                                               rtick := 0\<rparr>)\<rparr>"
    by (auto simp: exec_task_cases split: option.splits)
  from m(1) have h: "handle (objs s t) \<noteq> 0"
    "cb (handle (objs s t)) (s\<lparr>calls := calls s @ [handle (objs s t)]\<rparr>) = Some m"
    by (auto simp: call_handle_def split: if_splits)
  from assms(3) have "timers_ok (s\<lparr>calls := calls s @ [handle (objs s t)]\<rparr>)"
    by (simp add: timers_ok_def)
  with assms(1) h have "timers_ok m" unfolding timers_kept_def by blast
  then show ?thesis by (simp add: m(2) timers_ok_def)
qed

lemma runtime_task_timers: "timers_ok s \<Longrightarrow> timers_ok (runtime_task s t)"
  by (auto simp: timers_ok_def runtime_task_def upd_obj_def)

lemma tick_loop_timers:
  "tick_loop s node safe count = Some s' \<Longrightarrow> timers_ok s \<Longrightarrow> timers_ok s'"
proof (induction s node safe count rule: tick_loop.induct)
  case (1 s node safe count)
  from "1.prems"(1) consider "s' = s"
    | task where "QTASK_ENTRY node = Some task" "s' = tick_task s task"
    | task where "node \<noteq> QNULL" "node \<noteq> Task_list"
        "next (nodes s node) \<noteq> QNULL" "prev (nodes s node) \<noteq> QNULL"
        "QTASK_ENTRY node = Some task" "\<not> 1000 < count + 1"
        "tick_loop (tick_task s task) safe (safe_next (tick_task s task) safe) (count + 1) = Some s'"
    by (subst (asm) tick_loop.simps) (auto split: if_splits option.splits)
  then show ?case
  proof cases
    case 1
    with "1.prems"(2) show ?thesis by simp
  next
    case 2
    with "1.prems"(2) show ?thesis by (simp add: tick_task_timers)
  next
    case 3
    have "\<not> (node = QNULL \<or> node = Task_list)"
      "\<not> (next (nodes s node) = QNULL \<or> prev (nodes s node) = QNULL)"
      using 3 by simp_all
    from "1.IH" [OF this 3(5,6,7) tick_task_timers [OF "1.prems"(2)]] show ?thesis .
  qed
qed

lemma exec_loop_timers:
  assumes "exec_loop cb s node safe = Some y"
  shows "timers_kept cb \<longrightarrow> timers_ok s \<longrightarrow> timers_ok y"
  by (rule exec_loop.raw_induct
        [where P = "\<lambda>cb s node safe y. timers_kept cb \<longrightarrow> timers_ok s \<longrightarrow> timers_ok y",
         OF _ assms])
     (auto split: if_splits option.splits bind_splits dest: exec_task_timers [rotated])

lemma runtime_loop_timers:
  assumes "runtime_loop s node = Some y"
  shows "timers_ok s \<longrightarrow> timers_ok y"
  by (rule runtime_loop.raw_induct
        [where P = "\<lambda>s node y. timers_ok s \<longrightarrow> timers_ok y", OF _ assms])
     (auto split: if_splits option.splits simp: runtime_task_timers)

section \<open>No task in both lists, whatever the ids\<close>

lemma unlinked_frame:
  "next (nodes s' (Task_node t)) = next (nodes s (Task_node t)) \<Longrightarrow>
   prev (nodes s' (Task_node t)) = prev (nodes s (Task_node t)) \<Longrightarrow>
   unlinked s' t = unlinked s t"
  by (simp add: unlinked_def)

lemma lists_ok_upd_obj [simp]: "lists_ok (upd_obj s t f) xs ys = lists_ok s xs ys"
  by (simp add: lists_ok_def unlinked_def)

lemma list_remove_unlinked:
  assumes "unlinked s t" "list_remove s (Task_node t) = Some s'"
  shows "nodes s' = nodes s"
proof -
  from assms(2) have nn: "next (nodes s (Task_node t)) \<noteq> QNULL"
    by (auto simp: list_remove_def split: if_splits)
  have "prev (nodes s (Task_node t)) \<noteq> QNULL"
  proof
    assume "prev (nodes s (Task_node t)) = QNULL"
    with assms(2) nn show False
      by (auto simp: list_remove_def set_prev_def Let_def split: if_splits)
  qed
  with nn assms(1) have self: "nodes s (Task_node t) = \<lparr>prev = Task_node t, next = Task_node t\<rparr>"
    by (cases "nodes s (Task_node t)") (simp add: unlinked_def)
  then have "(nodes s)(Task_node t := \<lparr>prev = Task_node t, next = Task_node t\<rparr>) = nodes s"
    by (metis fun_upd_triv)
  with self have "set_prev s (Task_node t) (Task_node t) = s" "set_next s (Task_node t) (Task_node t) = s"
    by (simp_all add: set_prev_def set_next_def)
  with self have "list_remove s (Task_node t) = Some s"
    by (simp add: list_remove_def Let_def)
  with assms(2) show ?thesis by simp
qed

lemma reset_remove_lists_ok:
  assumes ok: "lists_ok s xs ys" and rr: "reset_remove s t = Some s'"
  shows "lists_ok s' (remove1 t xs) (remove1 t ys)"
proof -
  from ok have inv: "sched_inv s xs ys"
    and un: "\<And>u. u \<notin> set xs \<Longrightarrow> u \<notin> set ys \<Longrightarrow> unlinked s u"
    by (simp_all add: lists_ok_def)
  note xs0 = sched_invD(1) [OF inv] and ys0 = sched_invD(2) [OF inv] and disj = sched_invD(3) [OF inv]
  from xs0 ys0 have dxs: "distinct xs" and dys: "distinct ys" by (simp_all add: dlist_def)
  consider "t \<in> set xs" | "t \<in> set ys" | "t \<notin> set xs" "t \<notin> set ys" by blast
  then show ?thesis
  proof cases
    case 1
    with disj have ty: "t \<notin> set ys" by auto
    from reset_remove_dlist [OF xs0 _ 1] rr have s': "dlist s' Task_list (remove1 t xs)"
      "nodes s' (Task_node t) = \<lparr>prev = Task_node t, next = Task_node t\<rparr>"
      and fr: "\<And>r. r \<noteq> Task_list \<Longrightarrow> r \<notin> Task_node ` set xs \<Longrightarrow>
                next (nodes s' r) = next (nodes s r) \<and> prev (nodes s' r) = prev (nodes s r)"
      by auto
    have "dlist s' Suspend_list ys = dlist s Suspend_list ys"
      using disj by (intro dlist_frame fr) auto
    moreover have "set (remove1 t xs) \<subseteq> set xs" by (rule set_remove1_subset)
    ultimately have "sched_inv s' (remove1 t xs) ys"
      using ys0 s'(1) disj by (auto simp: sched_inv_def)
    moreover have "unlinked s' u" if "u \<notin> set (remove1 t xs)" "u \<notin> set ys" for u
    proof (cases "u = t")
      case True
      with s'(2) show ?thesis by (simp add: unlinked_def)
    next
      case False
      with that dxs have u: "u \<notin> set xs" by simp
      with fr [of "Task_node u"] have "unlinked s' u = unlinked s u"
        by (intro unlinked_frame) auto
      with un [OF u that(2)] show ?thesis by simp
    qed
    ultimately show ?thesis using ty by (simp add: lists_ok_def remove1_idem)
  next
    case 2
    with disj have tx: "t \<notin> set xs" by auto
    from reset_remove_dlist [OF ys0 _ 2] rr have s': "dlist s' Suspend_list (remove1 t ys)"
      "nodes s' (Task_node t) = \<lparr>prev = Task_node t, next = Task_node t\<rparr>"
      and fr: "\<And>r. r \<noteq> Suspend_list \<Longrightarrow> r \<notin> Task_node ` set ys \<Longrightarrow>
                next (nodes s' r) = next (nodes s r) \<and> prev (nodes s' r) = prev (nodes s r)"
      by auto
    have "dlist s' Task_list xs = dlist s Task_list xs"
      using disj by (intro dlist_frame fr) auto
    moreover have "set (remove1 t ys) \<subseteq> set ys" by (rule set_remove1_subset)
    ultimately have "sched_inv s' xs (remove1 t ys)"
      using xs0 s'(1) disj by (auto simp: sched_inv_def)
    moreover have "unlinked s' u" if "u \<notin> set xs" "u \<notin> set (remove1 t ys)" for u
    proof (cases "u = t")
      case True
      with s'(2) show ?thesis by (simp add: unlinked_def)
    next
      case False
      with that dys have u: "u \<notin> set ys" by simp
      with fr [of "Task_node u"] have "unlinked s' u = unlinked s u"
        by (intro unlinked_frame) auto
      with un [OF that(1) u] show ?thesis by simp
    qed
    ultimately show ?thesis using tx by (simp add: lists_ok_def remove1_idem)
  next
    case 3
    let ?s2 = "upd_obj (upd_obj s t (\<lambda>t. t\<lparr>isready := 0\<rparr>)) t (\<lambda>t. t\<lparr>timer := period t\<rparr>)"
    from rr have lr: "list_remove ?s2 (Task_node t) = Some s'"
      by (simp add: reset_remove_def Let_def)
    have "unlinked ?s2 t" using un [OF 3] by (simp add: unlinked_def)
    from list_remove_unlinked [OF this lr] have "nodes s' = nodes s" by simp
    then have "lists_ok s' xs ys = lists_ok s xs ys"
      by (simp add: lists_ok_def sched_inv_def dlist_def unlinked_def)
    with ok 3 show ?thesis by (simp add: remove1_idem)
  qed
qed

lemma list_insert_lists_ok:
  assumes ok: "lists_ok s xs ys" and t: "t \<notin> set xs" "t \<notin> set ys"
  shows "\<exists>s'. list_insert s Task_list (Task_node t) = Some s' \<and> lists_ok s' (t # xs) ys"
    and "\<exists>s'. list_insert s Suspend_list (Task_node t) = Some s' \<and> lists_ok s' xs (t # ys)"
proof -
  from ok have inv: "sched_inv s xs ys"
    and un: "\<And>u. u \<notin> set xs \<Longrightarrow> u \<notin> set ys \<Longrightarrow> unlinked s u"
    by (simp_all add: lists_ok_def)
  note xs0 = sched_invD(1) [OF inv] and ys0 = sched_invD(2) [OF inv] and disj = sched_invD(3) [OF inv]
  from dlist_insert [OF xs0 _ t(1)] obtain s' where s':
    "list_insert s Task_list (Task_node t) = Some s'" "dlist s' Task_list (t # xs)"
    and fr: "\<And>r. r \<noteq> Task_list \<Longrightarrow> r \<noteq> Task_node t \<Longrightarrow> r \<notin> Task_node ` set xs \<Longrightarrow>
                next (nodes s' r) = next (nodes s r) \<and> prev (nodes s' r) = prev (nodes s r)"
    by auto
  have "dlist s' Suspend_list ys = dlist s Suspend_list ys"
    using disj t(2) by (intro dlist_frame fr) auto
  with ys0 s'(2) disj t(2) have "sched_inv s' (t # xs) ys" by (simp add: sched_inv_def)
  moreover have "unlinked s' u" if "u \<notin> set (t # xs)" "u \<notin> set ys" for u
  proof -
    from that fr [of "Task_node u"] have "unlinked s' u = unlinked s u"
      by (intro unlinked_frame) auto
    with un [of u] that show ?thesis by simp
  qed
  ultimately show "\<exists>s'. list_insert s Task_list (Task_node t) = Some s' \<and> lists_ok s' (t # xs) ys"
    using s'(1) by (auto simp: lists_ok_def)
  from dlist_insert [OF ys0 _ t(2)] obtain s' where s':
    "list_insert s Suspend_list (Task_node t) = Some s'" "dlist s' Suspend_list (t # ys)"
    and fr: "\<And>r. r \<noteq> Suspend_list \<Longrightarrow> r \<noteq> Task_node t \<Longrightarrow> r \<notin> Task_node ` set ys \<Longrightarrow>
                next (nodes s' r) = next (nodes s r) \<and> prev (nodes s' r) = prev (nodes s r)"
    by auto
  have "dlist s' Task_list xs = dlist s Task_list xs"
    using disj t(1) by (intro dlist_frame fr) auto
  with xs0 s'(2) disj t(1) have "sched_inv s' xs (t # ys)" by (simp add: sched_inv_def)
  moreover have "unlinked s' u" if "u \<notin> set xs" "u \<notin> set (t # ys)" for u
  proof -
    from that fr [of "Task_node u"] have "unlinked s' u = unlinked s u"
      by (intro unlinked_frame) auto
    with un [of u] that show ?thesis by simp
  qed
  ultimately show "\<exists>s'. list_insert s Suspend_list (Task_node t) = Some s' \<and> lists_ok s' xs (t # ys)"
    using s'(1) by (auto simp: lists_ok_def)
qed

lemma to_active_steps:
  assumes ok: "lists_ok s xs ys" and qd: "qdtask_isexsit s t = Some d"
    and rr: "(if d \<noteq> 0 then reset_remove s t else Some s) = Some s1"
    and qe: "qtask_isexist s1 t = Some e"
  shows "\<exists>xs1 ys1. lists_ok s1 xs1 ys1 \<and> (e = 0 \<longrightarrow> t \<notin> set xs1 \<and> t \<notin> set ys1)"
proof -
  from ok have inv: "sched_inv s xs ys" by (simp add: lists_ok_def)
  note xs0 = sched_invD(1) [OF inv] and ys0 = sched_invD(2) [OF inv]
  from xs0 ys0 have dxs: "distinct xs" and dys: "distinct ys" by (simp_all add: dlist_def)
  show ?thesis
  proof (cases "d = 0")
    case False
    with rr have "reset_remove s t = Some s1" by simp
    from reset_remove_lists_ok [OF ok this] dxs dys show ?thesis
      by (intro exI [of _ "remove1 t xs"] exI [of _ "remove1 t ys"]) simp
  next
    case True
    with rr have s1: "s1 = s" by simp
    from qd True have "t \<notin> set ys"
      unfolding qdtask_isexsit_dlist [OF ys0] by (auto split: if_splits)
    moreover from qe have "e = 0 \<longrightarrow> t \<notin> set xs"
      unfolding s1 qtask_isexist_dlist [OF xs0] by (auto split: if_splits)
    ultimately show ?thesis using ok s1 by auto
  qed
qed

lemma to_suspended_steps:
  assumes ok: "lists_ok s xs ys" and qe: "qtask_isexist s t = Some e"
    and rr: "(if e \<noteq> 0 then reset_remove s t else Some s) = Some s1"
    and qd: "qdtask_isexsit s1 t = Some d"
  shows "\<exists>xs1 ys1. lists_ok s1 xs1 ys1 \<and> (d = 0 \<longrightarrow> t \<notin> set xs1 \<and> t \<notin> set ys1)"
proof -
  from ok have inv: "sched_inv s xs ys" by (simp add: lists_ok_def)
  note xs0 = sched_invD(1) [OF inv] and ys0 = sched_invD(2) [OF inv]
  from xs0 ys0 have dxs: "distinct xs" and dys: "distinct ys" by (simp_all add: dlist_def)
  show ?thesis
  proof (cases "e = 0")
    case False
    with rr have "reset_remove s t = Some s1" by simp
    from reset_remove_lists_ok [OF ok this] dxs dys show ?thesis
      by (intro exI [of _ "remove1 t xs"] exI [of _ "remove1 t ys"]) simp
  next
    case True
    with rr have s1: "s1 = s" by simp
    from qe True have "t \<notin> set xs"
      unfolding qtask_isexist_dlist [OF xs0] by (auto split: if_splits)
    moreover from qd have "d = 0 \<longrightarrow> t \<notin> set ys"
      unfolding s1 qdtask_isexsit_dlist [OF ys0] by (auto split: if_splits)
    ultimately show ?thesis using ok s1 by auto
  qed
qed

lemma qtask_add_lists_ok:
  assumes "lists_ok s xs ys" "qtask_add s t nm hdl tick = Some (r, s')"
  shows "\<exists>xs' ys'. lists_ok s' xs' ys'"
proof -
  define s0 where "s0 = upd_obj s t (\<lambda>t. t\<lparr>name := nm, id_obj := id_calc nm, isready := 0,
                 handle := hdl, timer := tick, period := tick, rtime := 0, rtick := 0\<rparr>)"
  have ok0: "lists_ok s0 xs ys" using assms(1) by (simp add: s0_def)
  from assms(2) obtain d s1 e where st: "qdtask_isexsit s0 t = Some d"
    "(if d \<noteq> 0 then reset_remove s0 t else Some s0) = Some s1" "qtask_isexist s1 t = Some e"
    and res: "(if e = 0 then list_insert s1 Task_list (Task_node t) \<bind> (\<lambda>s2. Some (0, s2))
              else Some (1, s1)) = Some (r, s')"
    unfolding qtask_add_def Let_def s0_def [symmetric] bind_eq_Some_conv by blast
  from to_active_steps [OF ok0 st] obtain xs1 ys1 where
    ok1: "lists_ok s1 xs1 ys1" "e = 0 \<longrightarrow> t \<notin> set xs1 \<and> t \<notin> set ys1" by blast
  show ?thesis
  proof (cases "e = 0")
    case True
    with res have "list_insert s1 Task_list (Task_node t) = Some s'"
      by (simp add: bind_eq_Some_conv)
    with True ok1 list_insert_lists_ok(1) [OF ok1(1), of t] show ?thesis by auto
  next
    case False
    with ok1 res show ?thesis by auto
  qed
qed

lemma qtask_del_lists_ok:
  assumes "lists_ok s xs ys" "qtask_del s t = Some (r, s')"
  shows "\<exists>xs' ys'. lists_ok s' xs' ys'"
proof -
  from assms(2) obtain e s1 d where st: "qtask_isexist s t = Some e"
    "(if e \<noteq> 0 then reset_remove s t else Some s) = Some s1" "qdtask_isexsit s1 t = Some d"
    and res: "(if d = 0 then list_insert s1 Suspend_list (Task_node t) \<bind> (\<lambda>s2. Some (0, s2))
              else Some (- 1, s1)) = Some (r, s')"
    unfolding qtask_del_def bind_eq_Some_conv by blast
  from to_suspended_steps [OF assms(1) st] obtain xs1 ys1 where
    ok1: "lists_ok s1 xs1 ys1" "d = 0 \<longrightarrow> t \<notin> set xs1 \<and> t \<notin> set ys1" by blast
  show ?thesis
  proof (cases "d = 0")
    case True
    with res have "list_insert s1 Suspend_list (Task_node t) = Some s'"
      by (simp add: bind_eq_Some_conv)
    with True ok1 list_insert_lists_ok(2) [OF ok1(1), of t] show ?thesis by auto
  next
    case False
    with ok1 res show ?thesis by auto
  qed
qed

lemma suspend_loop_lists_ok:
  assumes "suspend_loop s i node safe = Some y"
  shows "(\<exists>xs ys. lists_ok s xs ys) \<longrightarrow> (\<exists>xs' ys'. lists_ok (snd y) xs' ys')"
proof (rule suspend_loop.raw_induct
    [where P = "\<lambda>s i node safe y. (\<exists>xs ys. lists_ok s xs ys) \<longrightarrow> (\<exists>xs' ys'. lists_ok (snd y) xs' ys')",
     OF _ assms], goal_cases)
  case (1 f s i node safe y)
  show ?case
  proof
    assume "\<exists>xs ys. lists_ok s xs ys"
    then obtain xs ys where ok: "lists_ok s xs ys" by blast
    show "\<exists>xs' ys'. lists_ok (snd y) xs' ys'"
    proof (cases "node = QNULL \<or> node = Task_list")
      case True
      with 1(2) have "snd y = s" by auto
      with ok show ?thesis by blast
    next
      case False
      with 1(2) obtain task where task: "QTASK_ENTRY node = Some task"
        by (cases "QTASK_ENTRY node") auto
      show ?thesis
      proof (cases "id_obj (objs s task) = i")
        case True
        with 1(2) False task have "qtask_del s task = Some y"
          unfolding qtask_del_def by simp
        with qtask_del_lists_ok [OF ok, of task "fst y" "snd y"] show ?thesis by simp
      next
        case ni: False
        with 1(2) False task have "f s i safe (safe_next s safe) = Some y" by simp
        from 1(1) [OF this] ok show ?thesis by blast
      qed
    qed
  qed
qed

lemma resume_loop_lists_ok:
  assumes "resume_loop s i node safe = Some y"
  shows "(\<exists>xs ys. lists_ok s xs ys) \<longrightarrow> (\<exists>xs' ys'. lists_ok (snd y) xs' ys')"
proof (rule resume_loop.raw_induct
    [where P = "\<lambda>s i node safe y. (\<exists>xs ys. lists_ok s xs ys) \<longrightarrow> (\<exists>xs' ys'. lists_ok (snd y) xs' ys')",
     OF _ assms], goal_cases)
  case (1 f s i node safe y)
  show ?case
  proof
    assume "\<exists>xs ys. lists_ok s xs ys"
    then obtain xs ys where ok: "lists_ok s xs ys" by blast
    show "\<exists>xs' ys'. lists_ok (snd y) xs' ys'"
    proof (cases "node = QNULL \<or> node = Suspend_list")
      case True
      with 1(2) have "snd y = s" by auto
      with ok show ?thesis by blast
    next
      case False
      with 1(2) obtain task where task: "QTASK_ENTRY node = Some task"
        by (cases "QTASK_ENTRY node") auto
      show ?thesis
      proof (cases "id_obj (objs s task) = i")
        case True
        with 1(2) False task obtain d s1 e where st: "qdtask_isexsit s task = Some d"
          "(if d \<noteq> 0 then reset_remove s task else Some s) = Some s1"
          "qtask_isexist s1 task = Some e"
          and res: "(if e = 0 then list_insert s1 Task_list (Task_node task) \<bind> (\<lambda>s2. Some (0, s2))
              else f s1 i safe (safe_next s1 safe)) = Some y"
          by (simp add: bind_eq_Some_conv) blast
        from to_active_steps [OF ok st] obtain xs1 ys1 where
          ok1: "lists_ok s1 xs1 ys1" "e = 0 \<longrightarrow> task \<notin> set xs1 \<and> task \<notin> set ys1" by blast
        show ?thesis
        proof (cases "e = 0")
          case True
          with res have "list_insert s1 Task_list (Task_node task) = Some (snd y)"
            by (auto simp: bind_eq_Some_conv)
          with True ok1 list_insert_lists_ok(1) [OF ok1(1), of task] show ?thesis by auto
        next
          case False
          with res have "f s1 i safe (safe_next s1 safe) = Some y" by simp
          from 1(1) [OF this] ok1(1) show ?thesis by blast
        qed
      next
        case ni: False
        with 1(2) False task have "f s i safe (safe_next s safe) = Some y" by simp
        from 1(1) [OF this] ok show ?thesis by blast
      qed
    qed
  qed
qed

lemma lists_ok_unique:
  assumes "lists_ok s xs ys" "sched_inv s xs' ys'"
  shows "lists_ok s xs' ys'"
proof -
  from assms have "xs = xs'" "ys = ys'"
    by (auto simp: lists_ok_def sched_inv_def intro: dlist_unique)
  with assms(1) show ?thesis by simp
qed

section \<open>The scheduler after initialisation\<close>

lemma qtask_sched_init_inv: "sched_inv (qtask_sched_init s) [] []"
  by (simp add: qtask_sched_init_def set_prev_def set_next_def Let_def sched_inv_def dlist_def)

lemma qtask_sched_init_zero:
  "lists_ok (qtask_sched_init zero_mem) [] []" "ids_unique (qtask_sched_init zero_mem) [] []"
  "timers_ok (qtask_sched_init zero_mem)"
  by (simp_all add: lists_ok_def unlinked_def ids_unique_def timers_ok_def qtask_sched_init_inv)
     (simp_all add: qtask_sched_init_def zero_mem_def set_prev_def set_next_def Let_def)

section \<open>C1: one call of tick-advance\<close>

text \<open>
  C1, amended. The scan of \<^verbatim>\<open>qtask_tick_increase\<close> is capped, so what the claim says of
  every task of the active list holds for the tasks among the first 1000 entries: a timer
  at 0 leaves the task unchanged; a timer at 1 expires, the task becomes ready and its
  timer is reset to the period; a larger timer is decremented by one. The links and the
  tasks outside the list are unchanged. When the list has at most 1000 entries, the
  last-ready reference is the last task of the list that expired in this call (unchanged
  when none did). A task among the first 1000 entries with period 3, timer 3 and not
  ready, as \<^verbatim>\<open>qtask_add\<close> leaves it, is not ready after the first and the second call,
  and ready with its timer back at 3 after the third.
\<close>

theorem tick_increase_first_1000:
  assumes "dlist s Task_list xs"
  shows "\<exists>s'. qtask_tick_increase s = Some s' \<and> nodes s' = nodes s \<and>
     (\<forall>t\<in>set (take 1000 xs).
        (timer (objs s t) = 0 \<longrightarrow> objs s' t = objs s t) \<and>
        (timer (objs s t) = 1 \<longrightarrow>
           objs s' t = (objs s t)\<lparr>isready := 1, timer := period (objs s t)\<rparr>) \<and>
        (1 < timer (objs s t) \<longrightarrow> objs s' t = (objs s t)\<lparr>timer := timer (objs s t) - 1\<rparr>)) \<and>
     (\<forall>t. t \<notin> set xs \<longrightarrow> objs s' t = objs s t) \<and>
     (length xs \<le> 1000 \<longrightarrow>
        run_task s' = (case filter (\<lambda>t. timer (objs s t) = 1) xs of
                         [] \<Rightarrow> run_task s | ys \<Rightarrow> Some (last ys))) \<and>
     (\<forall>t\<in>set (take 1000 xs).
        timer (objs s t) = 3 \<and> period (objs s t) = 3 \<and> isready (objs s t) = 0 \<longrightarrow>
        (\<exists>s1 s2 s3. qtask_tick_increase s = Some s1 \<and> qtask_tick_increase s1 = Some s2 \<and>
           qtask_tick_increase s2 = Some s3 \<and> isready (objs s1 t) = 0 \<and>
           isready (objs s2 t) = 0 \<and> isready (objs s3 t) = 1 \<and> timer (objs s3 t) = 3))"
proof -
  let ?tick = "\<lambda>s. foldl tick_task s (take 1001 xs)"
  note T = tick_spec [OF assms]
  from assms have d: "distinct xs" by (simp add: dlist_def)
  have one: "\<forall>t\<in>set (take 1000 xs).
        (timer (objs s t) = 0 \<longrightarrow> objs (?tick s) t = objs s t) \<and>
        (timer (objs s t) = 1 \<longrightarrow>
           objs (?tick s) t = (objs s t)\<lparr>isready := 1, timer := period (objs s t)\<rparr>) \<and>
        (1 < timer (objs s t) \<longrightarrow> objs (?tick s) t = (objs s t)\<lparr>timer := timer (objs s t) - 1\<rparr>)"
    by (auto simp: T(3) in_take_mono tick_obj_cases)
  have off: "\<forall>t. t \<notin> set xs \<longrightarrow> objs (?tick s) t = objs s t"
    by (auto simp: T(3) dest: in_set_takeD)
  have run: "length xs \<le> 1000 \<longrightarrow>
        run_task (?tick s) = (case filter (\<lambda>t. timer (objs s t) = 1) xs of
                         [] \<Rightarrow> run_task s | ys \<Rightarrow> Some (last ys))"
    using d by (simp add: foldl_tick_run_task)
  have three: "\<exists>s1 s2 s3. qtask_tick_increase s = Some s1 \<and> qtask_tick_increase s1 = Some s2 \<and>
           qtask_tick_increase s2 = Some s3 \<and> isready (objs s1 t) = 0 \<and>
           isready (objs s2 t) = 0 \<and> isready (objs s3 t) = 1 \<and> timer (objs s3 t) = 3"
    if t: "t \<in> set (take 1000 xs)"
      and o: "timer (objs s t) = 3" "period (objs s t) = 3" "isready (objs s t) = 0" for t
  proof -
    from t have t': "t \<in> set (take 1001 xs)" by (rule in_take_mono)
    let ?s1 = "?tick s"
    let ?s2 = "?tick ?s1"
    let ?s3 = "?tick ?s2"
    note T1 = tick_spec [OF T(2)]
    note T2 = tick_spec [OF T1(2)]
    have o1: "objs ?s1 t = (objs s t)\<lparr>timer := 2\<rparr>"
      using t' o by (simp add: T(3) tick_obj_def)
    have o2: "objs ?s2 t = (objs s t)\<lparr>timer := 1\<rparr>"
      using t' by (simp add: T1(3) o1 tick_obj_def)
    have o3: "objs ?s3 t = (objs s t)\<lparr>isready := 1, timer := 3\<rparr>"
      using t' o by (simp add: T2(3) o2 tick_obj_def)
    show ?thesis
      using T(1) T1(1) T2(1) o o1 o2 o3 by simp
  qed
  from T(1) one off run three show ?thesis by (intro exI [of _ "?tick s"]) simp
qed

text \<open>The same at a task added with period 3 to the empty scheduler.\<close>

theorem tick_increase_first_1000_witness:
  "dlist added3_mem Task_list [0] \<and> timer (objs added3_mem 0) = 3 \<and>
   (\<exists>s1 s2 s3. qtask_tick_increase added3_mem = Some s1 \<and> qtask_tick_increase s1 = Some s2 \<and>
      qtask_tick_increase s2 = Some s3 \<and> isready (objs s1 0) = 0 \<and>
      isready (objs s2 0) = 0 \<and> isready (objs s3 0) = 1 \<and> timer (objs s3 0) = 3)"
proof -
  have d: "dlist added3_mem Task_list [0]"
    by (simp add: added3_mem_def run_defs dlist_def)
  have o: "timer (objs added3_mem 0) = 3" "period (objs added3_mem 0) = 3"
    "isready (objs added3_mem 0) = 0"
    by (simp_all add: added3_mem_def run_defs)
  from tick_increase_first_1000 [OF d] d o show ?thesis by auto
qed

text \<open>
  C1 as stated fails: with 1002 tasks in the active list, the timer of the last one is
  positive and one call does not decrement it.
\<close>

theorem tick_increase_skips_entry_1002:
  "dlist (ring_mem 1002) Task_list [0..<1002] \<and> 0 < timer (objs (ring_mem 1002) 1001) \<and>
   qtask_tick_increase (ring_mem 1002) \<noteq> None \<and>
   timer (objs (the (qtask_tick_increase (ring_mem 1002))) 1001) =
     timer (objs (ring_mem 1002) 1001)"
proof -
  note T = tick_spec [OF ring_dlist [of 1002]]
  have "objs (the (qtask_tick_increase (ring_mem 1002))) 1001 =
      (if 1001 \<in> set (take 1001 [0..<1002]) then tick_obj (objs (ring_mem 1002) 1001)
       else objs (ring_mem 1002) 1001)"
    unfolding T(1) option.sel by (rule T(3))
  moreover have "timer (objs (ring_mem 1002) 1001) = 5" by (simp add: ring_mem_def)
  ultimately show ?thesis by (simp add: T(1) ring_dlist)
qed

section \<open>C2: one list for every task\<close>

text \<open>
  C2, amended. \<open>lists_ok\<close> is the state of the lists that the operations maintain: both
  lists well formed, no task in both, every other node unlinked. Whenever add, del,
  suspend or resume returns from such a state, the state is such a state again, whatever
  the ids: a task is never in both lists. When the listed tasks have pairwise different
  ids, each of add (under a name whose id is not the id of another listed task), del (of
  a task whose id is not the id of another listed task), suspend and resume returns, and
  every task that was in a list, and the task given to add or del, is in exactly one of
  the two lists afterwards, the ids still pairwise different.
\<close>

theorem one_list_per_task:
  assumes ok: "lists_ok s xs ys"
  shows "(\<forall>t nm hdl tick r s'. qtask_add s t nm hdl tick = Some (r, s') \<longrightarrow>
            (\<exists>xs' ys'. lists_ok s' xs' ys')) \<and>
         (\<forall>t r s'. qtask_del s t = Some (r, s') \<longrightarrow> (\<exists>xs' ys'. lists_ok s' xs' ys')) \<and>
         (\<forall>nm r s'. qtask_suspend s nm = Some (r, s') \<longrightarrow> (\<exists>xs' ys'. lists_ok s' xs' ys')) \<and>
         (\<forall>nm r s'. qtask_resume s nm = Some (r, s') \<longrightarrow> (\<exists>xs' ys'. lists_ok s' xs' ys')) \<and>
         (ids_unique s xs ys \<longrightarrow>
            (\<forall>t nm hdl tick.
               (\<forall>u\<in>set xs \<union> set ys. u \<noteq> t \<longrightarrow> id_obj (objs s u) \<noteq> id_calc nm) \<longrightarrow>
               (\<exists>r s' xs' ys'. qtask_add s t nm hdl tick = Some (r, s') \<and> lists_ok s' xs' ys' \<and>
                  ids_unique s' xs' ys' \<and> set xs' \<union> set ys' = insert t (set xs \<union> set ys))) \<and>
            (\<forall>t. (\<forall>u\<in>set xs \<union> set ys. u \<noteq> t \<longrightarrow> id_obj (objs s u) \<noteq> id_obj (objs s t)) \<longrightarrow>
               (\<exists>r s' xs' ys'. qtask_del s t = Some (r, s') \<and> lists_ok s' xs' ys' \<and>
                  ids_unique s' xs' ys' \<and> set xs' \<union> set ys' = insert t (set xs \<union> set ys))) \<and>
            (\<forall>nm. \<exists>r s' xs' ys'. qtask_suspend s nm = Some (r, s') \<and> lists_ok s' xs' ys' \<and>
                  ids_unique s' xs' ys' \<and> set xs' \<union> set ys' = set xs \<union> set ys) \<and>
            (\<forall>nm. \<exists>r s' xs' ys'. qtask_resume s nm = Some (r, s') \<and> lists_ok s' xs' ys' \<and>
                  ids_unique s' xs' ys' \<and> set xs' \<union> set ys' = set xs \<union> set ys))"
proof (intro conjI allI impI)
  fix t nm hdl tick r s' assume "qtask_add s t nm hdl tick = Some (r, s')"
  from qtask_add_lists_ok [OF ok this] show "\<exists>xs' ys'. lists_ok s' xs' ys'" .
next
  fix t r s' assume "qtask_del s t = Some (r, s')"
  from qtask_del_lists_ok [OF ok this] show "\<exists>xs' ys'. lists_ok s' xs' ys'" .
next
  fix nm r s' assume "qtask_suspend s nm = Some (r, s')"
  from suspend_loop_lists_ok [OF this [unfolded qtask_suspend_def Let_def]] ok
  show "\<exists>xs' ys'. lists_ok s' xs' ys'" by auto
next
  fix nm r s' assume "qtask_resume s nm = Some (r, s')"
  from resume_loop_lists_ok [OF this [unfolded qtask_resume_def Let_def]] ok
  show "\<exists>xs' ys'. lists_ok s' xs' ys'" by auto
next
  fix t nm hdl tick
  assume ids: "ids_unique s xs ys"
    and nocoll: "\<forall>u\<in>set xs \<union> set ys. u \<noteq> t \<longrightarrow> id_obj (objs s u) \<noteq> id_calc nm"
  from ok have inv: "sched_inv s xs ys" by (simp add: lists_ok_def)
  note N = no_collision_steps [OF inv ids, THEN conjunct1]
  from N nocoll obtain r s' xs' ys' where *: "qtask_add s t nm hdl tick = Some (r, s')"
    "sched_inv s' xs' ys'" "ids_unique s' xs' ys'"
    "set xs' \<union> set ys' = insert t (set xs \<union> set ys)" by blast
  from qtask_add_lists_ok [OF ok *(1)] *(2) have "lists_ok s' xs' ys'"
    by (blast intro: lists_ok_unique)
  with * show "\<exists>r s' xs' ys'. qtask_add s t nm hdl tick = Some (r, s') \<and> lists_ok s' xs' ys' \<and>
      ids_unique s' xs' ys' \<and> set xs' \<union> set ys' = insert t (set xs \<union> set ys)" by blast
next
  fix t
  assume ids: "ids_unique s xs ys"
    and nocoll: "\<forall>u\<in>set xs \<union> set ys. u \<noteq> t \<longrightarrow> id_obj (objs s u) \<noteq> id_obj (objs s t)"
  from ok have inv: "sched_inv s xs ys" by (simp add: lists_ok_def)
  note N = no_collision_steps [OF inv ids, THEN conjunct2, THEN conjunct1]
  from N nocoll obtain r s' xs' ys' where *: "qtask_del s t = Some (r, s')"
    "sched_inv s' xs' ys'" "ids_unique s' xs' ys'"
    "set xs' \<union> set ys' = insert t (set xs \<union> set ys)" by blast
  from qtask_del_lists_ok [OF ok *(1)] *(2) have "lists_ok s' xs' ys'"
    by (blast intro: lists_ok_unique)
  with * show "\<exists>r s' xs' ys'. qtask_del s t = Some (r, s') \<and> lists_ok s' xs' ys' \<and>
      ids_unique s' xs' ys' \<and> set xs' \<union> set ys' = insert t (set xs \<union> set ys)" by blast
next
  fix nm
  assume ids: "ids_unique s xs ys"
  from ok have inv: "sched_inv s xs ys" by (simp add: lists_ok_def)
  note N = no_collision_steps [OF inv ids, THEN conjunct2, THEN conjunct2, THEN conjunct1]
  from N obtain r s' xs' ys' where *: "qtask_suspend s nm = Some (r, s')"
    "sched_inv s' xs' ys'" "ids_unique s' xs' ys'"
    "set xs' \<union> set ys' = set xs \<union> set ys" by blast
  from suspend_loop_lists_ok [OF *(1) [unfolded qtask_suspend_def Let_def]] ok
  have "\<exists>xs'' ys''. lists_ok s' xs'' ys''" by auto
  with *(2) have "lists_ok s' xs' ys'" by (blast intro: lists_ok_unique)
  with * show "\<exists>r s' xs' ys'. qtask_suspend s nm = Some (r, s') \<and> lists_ok s' xs' ys' \<and>
      ids_unique s' xs' ys' \<and> set xs' \<union> set ys' = set xs \<union> set ys" by blast
next
  fix nm
  assume ids: "ids_unique s xs ys"
  from ok have inv: "sched_inv s xs ys" by (simp add: lists_ok_def)
  note N = no_collision_steps [OF inv ids, THEN conjunct2, THEN conjunct2, THEN conjunct2]
  from N obtain r s' xs' ys' where *: "qtask_resume s nm = Some (r, s')"
    "sched_inv s' xs' ys'" "ids_unique s' xs' ys'"
    "set xs' \<union> set ys' = set xs \<union> set ys" by blast
  from resume_loop_lists_ok [OF *(1) [unfolded qtask_resume_def Let_def]] ok
  have "\<exists>xs'' ys''. lists_ok s' xs'' ys''" by auto
  with *(2) have "lists_ok s' xs' ys'" by (blast intro: lists_ok_unique)
  with * show "\<exists>r s' xs' ys'. qtask_resume s nm = Some (r, s') \<and> lists_ok s' xs' ys' \<and>
      ids_unique s' xs' ys' \<and> set xs' \<union> set ys' = set xs \<union> set ys" by blast
qed

text \<open>
  The same at two states: with two tasks of the same id listed, where suspend drops task 0
  and the lists stay well formed; and with one active task, which suspend moves.
\<close>

theorem one_list_per_task_witness:
  "lists_ok collide_mem [0] [1] \<and>
   qtask_suspend collide_mem (Some ''bQ'') = Some (- 1, dropped_mem) \<and>
   (\<exists>xs' ys'. lists_ok dropped_mem xs' ys') \<and>
   lists_ok added3_mem [0] [] \<and> ids_unique added3_mem [0] [] \<and>
   (\<exists>r s' xs' ys'. qtask_suspend added3_mem (Some ''a'') = Some (r, s') \<and>
      lists_ok s' xs' ys' \<and> ids_unique s' xs' ys' \<and> set xs' \<union> set ys' = {0})"
proof -
  have c: "lists_ok collide_mem [0] [1]"
    by (simp add: lists_ok_def unlinked_def collide_mem_def pre_collide_mem_def run_defs inv_defs)
  have a: "lists_ok added3_mem [0] []"
    by (simp add: lists_ok_def unlinked_def added3_mem_def run_defs inv_defs)
  note C = one_list_per_task [OF c, THEN conjunct2, THEN conjunct2, THEN conjunct1, rule_format]
  note A = one_list_per_task [OF a, THEN conjunct2, THEN conjunct2, THEN conjunct2,
    THEN conjunct2, rule_format, THEN conjunct2, THEN conjunct2, THEN conjunct1, rule_format]
  from C [OF dropped_eval(1)] have "\<exists>xs' ys'. lists_ok dropped_mem xs' ys'" .
  moreover from A [OF added3_eval(2), of "Some ''a''"]
  have "\<exists>r s' xs' ys'. qtask_suspend added3_mem (Some ''a'') = Some (r, s') \<and>
      lists_ok s' xs' ys' \<and> ids_unique s' xs' ys' \<and> set xs' \<union> set ys' = {0}"
    by simp
  ultimately show ?thesis using c a dropped_eval(1) added3_eval(2) by simp
qed

text \<open>
  C2 as stated fails when two listed tasks share an id. Task 0 was added as \<^verbatim>\<open>"bQ"\<close>
  (status 0) and is active, task 1 was added as \<^verbatim>\<open>"ar"\<close> and is suspended; both names
  hash to the same id. Suspending \<^verbatim>\<open>"bQ"\<close> unlinks task 0 from the active list and, as the
  id is found in the suspended list, does not insert it there: the active list is empty,
  the suspended list holds task 1 only (the lists of a memory are unique, \<open>dlist_unique\<close>),
  and task 0 is in neither.
\<close>

theorem suspend_collision_leaves_no_list:
  "qtask_add pre_collide_mem 0 (Some ''bQ'') 7 5 = Some (0, collide_mem) \<and>
   sched_inv collide_mem [0] [1] \<and>
   qtask_suspend collide_mem (Some ''bQ'') = Some (- 1, dropped_mem) \<and>
   sched_inv dropped_mem [] [1] \<and> 0 \<notin> set [] \<union> set [1::nat]"
  using collide_eval(1,2) dropped_eval(1,2) by simp

section \<open>C3: rescheduling the current task\<close>

text \<open>
  C3. With a last-ready task set, \<^verbatim>\<open>qtask_sleep(sched, ticks)\<close> is claimed to set that
  task's timer to \<open>ticks\<close>. The store is guarded by \<^verbatim>\<open>if(!sched->run_task)\<close>, so with a
  last-ready task the call changes nothing: after one task of period 1 has expired (it is
  the last-ready task, its timer back at 1), \<^verbatim>\<open>qtask_sleep(sched, 10)\<close> returns the memory
  as it was, the timer still 1.
\<close>

theorem qtask_sleep_keeps_timer:
  "run_task fired_mem = Some 0 \<and> timer (objs fired_mem 0) = 1 \<and>
   qtask_sleep fired_mem 10 = Some fired_mem"
proof -
  have "run_task fired_mem = Some 0" "timer (objs fired_mem 0) = 1"
    by (simp_all add: fired_mem_def run_defs)
  then show ?thesis by (simp add: qtask_sleep_def)
qed

section \<open>C4: the cap of the scan\<close>

text \<open>
  C4. One call is claimed to process at most 1000 entries. The loop counts an entry and
  then tests \<^verbatim>\<open>count > 1000\<close>, so it stops after entry 1001: with 1002 tasks in the active
  list, the timer of entry 1001 (task 1000) goes from 5 to 4, and 1001 timers change.
\<close>

theorem tick_increase_processes_1001:
  "dlist (ring_mem 1002) Task_list [0..<1002] \<and> timer (objs (ring_mem 1002) 1000) = 5 \<and>
   timer (objs (the (qtask_tick_increase (ring_mem 1002))) 1000) = 4 \<and>
   length (filter (\<lambda>t. timer (objs (the (qtask_tick_increase (ring_mem 1002))) t) \<noteq>
                        timer (objs (ring_mem 1002) t)) [0..<1002]) = 1001"
proof -
  note T = tick_spec [OF ring_dlist [of 1002]]
  have o: "objs (ring_mem 1002) t = \<lparr>name = None, id_obj = of_nat t, isready = 0, handle = 0,
      timer = 5, period = 5, rtime = 0, rtick = 0\<rparr>" for t by (simp add: ring_mem_def)
  have oo: "objs (the (qtask_tick_increase (ring_mem 1002))) t =
      (if t \<in> set (take 1001 [0..<1002]) then tick_obj (objs (ring_mem 1002) t)
       else objs (ring_mem 1002) t)" for t
    unfolding T(1) option.sel by (rule T(3))
  have ch: "(timer (objs (the (qtask_tick_increase (ring_mem 1002))) t) \<noteq>
                        timer (objs (ring_mem 1002) t)) = (t < 1001)" for t
    by (simp add: oo o tick_obj_def)
  have "filter (\<lambda>t. t < 1001) [0..<1002] = [0..<1001]"
    by (simp add: filter_less_upt)
  then show ?thesis by (simp add: ch ring_dlist) (simp add: oo o tick_obj_def)
qed

section \<open>C5: resuming an active task, suspending a suspended one\<close>

text \<open>
  C5, amended. For a task of the active list whose id is the hash of its name and is not
  the id of a suspended task, \<^verbatim>\<open>qtask_resume\<close> of its name returns -1 and leaves the memory
  as it was; for a task of the suspended list whose id is the hash of its name and is not
  the id of an active task, \<^verbatim>\<open>qtask_suspend\<close> of its name returns -1 and leaves the memory
  as it was. The status -1 is also the one returned for a name whose id no listed task
  has.
\<close>

theorem already_listed_no_collision:
  assumes "sched_inv s xs ys"
  shows "(\<forall>t\<in>set xs. id_obj (objs s t) = id_calc (name (objs s t)) \<and>
            (\<forall>y\<in>set ys. id_obj (objs s y) \<noteq> id_obj (objs s t)) \<longrightarrow>
            qtask_resume s (name (objs s t)) = Some (- 1, s)) \<and>
         (\<forall>t\<in>set ys. id_obj (objs s t) = id_calc (name (objs s t)) \<and>
            (\<forall>x\<in>set xs. id_obj (objs s x) \<noteq> id_obj (objs s t)) \<longrightarrow>
            qtask_suspend s (name (objs s t)) = Some (- 1, s)) \<and>
         (\<forall>nm. (\<forall>u\<in>set xs \<union> set ys. id_obj (objs s u) \<noteq> id_calc nm) \<longrightarrow>
            qtask_resume s nm = Some (- 1, s) \<and> qtask_suspend s nm = Some (- 1, s))"
proof -
  from assms have xs: "dlist s Task_list xs" and ys: "dlist s Suspend_list ys"
    by (simp_all add: sched_inv_def)
  show ?thesis
    by (auto intro!: resume_none_spec [OF ys] suspend_none_spec [OF xs])
qed

text \<open>The same at the one active task of \<open>added3_mem\<close> and at the unknown name \<^verbatim>\<open>"zz"\<close>.\<close>

theorem already_listed_no_collision_witness:
  "sched_inv added3_mem [0] [] \<and> name (objs added3_mem 0) = Some ''a'' \<and>
   id_obj (objs added3_mem 0) = id_calc (Some ''a'') \<and>
   id_obj (objs added3_mem 0) \<noteq> id_calc (Some ''zz'') \<and>
   qtask_resume added3_mem (Some ''a'') = Some (- 1, added3_mem) \<and>
   qtask_resume added3_mem (Some ''zz'') = Some (- 1, added3_mem)"
proof -
  have n: "id_obj (objs added3_mem 0) \<noteq> id_calc (Some ''zz'')"
    by (simp add: added3_eval(3) id_calc_def)
  from already_listed_no_collision [OF added3_eval(1)] n added3_eval show ?thesis
    by simp
qed

text \<open>
  C5 as stated fails twice. The status of resume on an active task is the status of
  resume on an unknown name (both -1). And the memory may change: in \<open>collide_mem\<close>, task 0
  is active under the name \<^verbatim>\<open>"bQ"\<close> and the suspended task 1 has the same id; resuming
  \<^verbatim>\<open>"bQ"\<close> returns -1 and unlinks task 1 from the suspended list.
\<close>

theorem resume_active_collision:
  "fst (the (qtask_resume added3_mem (Some ''a''))) = fst (the (qtask_resume added3_mem (Some ''zz''))) \<and>
   sched_inv collide_mem [0] [1] \<and> name (objs collide_mem 0) = Some ''bQ'' \<and>
   fst (the (qtask_resume collide_mem (Some ''bQ''))) = - 1 \<and>
   sched_inv (snd (the (qtask_resume collide_mem (Some ''bQ'')))) [0] []"
proof -
  have "fst (the (qtask_resume added3_mem (Some ''a''))) = - 1"
    "fst (the (qtask_resume added3_mem (Some ''zz''))) = - 1"
    by (simp_all add: added3_mem_def run_defs)
  moreover have "fst (the (qtask_resume collide_mem (Some ''bQ''))) = - 1"
    "sched_inv (snd (the (qtask_resume collide_mem (Some ''bQ'')))) [0] []"
    by (simp_all add: collide_mem_def pre_collide_mem_def run_defs inv_defs)
  ultimately show ?thesis using collide_eval(2,5) by simp
qed

section \<open>C6: adding under an id that is already active\<close>

text \<open>
  C6, amended. When a task with the id of the name is in the active list (the task given
  to add itself, or another one), the task given to add is not in the suspended list and
  no suspended task has that id, \<^verbatim>\<open>qtask_add\<close> returns 1 and leaves the links of both lists,
  the last-ready reference and every other task object as they were; the fields of the
  task object given to add are initialised again (name, id, handle from the arguments,
  timer and period the given ticks, ready flag and counters zero).
\<close>

theorem add_active_id:
  assumes "sched_inv s xs ys" "t \<notin> set ys"
    and "\<forall>y\<in>set ys. id_obj (objs s y) \<noteq> id_calc nm"
    and "t \<in> set xs \<or> (\<exists>x\<in>set xs. id_obj (objs s x) = id_calc nm)"
  shows "\<exists>s'. qtask_add s t nm hdl tick = Some (1, s') \<and> nodes s' = nodes s \<and>
           run_task s' = run_task s \<and> calls s' = calls s \<and>
           (\<forall>u. u \<noteq> t \<longrightarrow> objs s' u = objs s u) \<and>
           objs s' t = (objs s t)\<lparr>name := nm, id_obj := id_calc nm, isready := 0, handle := hdl,
             timer := tick, period := tick, rtime := 0, rtick := 0\<rparr>"
proof -
  define s0 where "s0 = upd_obj s t (\<lambda>t. t\<lparr>name := nm, id_obj := id_calc nm, isready := 0,
                 handle := hdl, timer := tick, period := tick, rtime := 0, rtick := 0\<rparr>)"
  have add: "qtask_add s t nm hdl tick = do {
        d \<leftarrow> qdtask_isexsit s0 t;
        s1 \<leftarrow> (if d \<noteq> 0 then reset_remove s0 t else Some s0);
        e \<leftarrow> qtask_isexist s1 t;
        if e = 0 then do {
          s2 \<leftarrow> list_insert s1 Task_list (Task_node t);
          Some (0, s2)
        } else Some (1, s1)
      }" unfolding qtask_add_def s0_def Let_def ..
  from assms(1) have xs0: "dlist s0 Task_list xs" and ys0: "dlist s0 Suspend_list ys"
    by (simp_all add: sched_inv_def s0_def)
  have idt: "id_obj (objs s0 t) = id_calc nm" by (simp add: s0_def)
  have ido: "id_obj (objs s0 u) = id_obj (objs s u)" if "u \<noteq> t" for u
    using that by (simp add: s0_def)
  have "\<not> (\<exists>y\<in>set ys. id_calc nm = id_obj (objs s0 y))"
    using assms(2,3) ido by (metis)
  then have qd: "qdtask_isexsit s0 t = Some 0"
    unfolding qdtask_isexsit_dlist [OF ys0] idt by simp
  have "\<exists>x\<in>set xs. id_calc nm = id_obj (objs s0 x)"
    using assms(4) idt ido by metis
  then have qe: "qtask_isexist s0 t = Some 1"
    unfolding qtask_isexist_dlist [OF xs0] idt by simp
  from qd qe have "qtask_add s t nm hdl tick = Some (1, s0)" by (simp add: add)
  then show ?thesis by (simp add: s0_def)
qed

text \<open>The same when the one active task of \<open>ticked_mem\<close> is added a second time.\<close>

theorem add_active_id_witness:
  "sched_inv ticked_mem [0] [] \<and>
   (\<exists>s'. qtask_add ticked_mem 0 (Some ''a'') 7 3 = Some (1, s') \<and> nodes s' = nodes ticked_mem \<and>
      timer (objs s' 0) = 3 \<and> objs s' 1 = objs ticked_mem 1)"
proof -
  have i: "sched_inv ticked_mem [0] []"
    by (simp add: ticked_mem_def added3_mem_def run_defs inv_defs)
  from add_active_id [OF i, of 0 "Some ''a''" 7 3] i show ?thesis by auto
qed

text \<open>
  C6 as stated fails. The task of \<open>ticked_mem\<close> has its timer at 2 of 3; adding it again
  returns 1 and puts the timer back to 3. And in \<open>collide_mem\<close>, where the active task 0
  and the suspended task 1 share an id, adding task 1 again under its name returns 1 and
  unlinks task 1 from the suspended list.
\<close>

theorem add_active_id_changes_state:
  "sched_inv ticked_mem [0] [] \<and> timer (objs ticked_mem 0) = 2 \<and>
   fst (the (qtask_add ticked_mem 0 (Some ''a'') 7 3)) = 1 \<and>
   timer (objs (snd (the (qtask_add ticked_mem 0 (Some ''a'') 7 3))) 0) = 3 \<and>
   sched_inv collide_mem [0] [1] \<and>
   fst (the (qtask_add collide_mem 1 (Some ''ar'') 8 3)) = 1 \<and>
   sched_inv (snd (the (qtask_add collide_mem 1 (Some ''ar'') 8 3))) [0] []"
proof -
  have "sched_inv ticked_mem [0] []" "timer (objs ticked_mem 0) = 2"
    "fst (the (qtask_add ticked_mem 0 (Some ''a'') 7 3)) = 1"
    "timer (objs (snd (the (qtask_add ticked_mem 0 (Some ''a'') 7 3))) 0) = 3"
    by (simp_all add: ticked_mem_def added3_mem_def run_defs inv_defs)
  moreover have "fst (the (qtask_add collide_mem 1 (Some ''ar'') 8 3)) = 1"
    "sched_inv (snd (the (qtask_add collide_mem 1 (Some ''ar'') 8 3))) [0] []"
    by (simp_all add: collide_mem_def pre_collide_mem_def run_defs inv_defs)
  ultimately show ?thesis using collide_eval(2) by simp
qed

section \<open>C7: the execute pass\<close>




section \<open>C8: the timer stays within the period\<close>

text \<open>
  C8, amended. A timer is an unsigned \<^verbatim>\<open>size_t\<close> and tick-advance leaves a timer at zero
  alone, so a timer never goes below zero. That every task's timer is at most its period
  holds after initialisation if it held before, and is preserved by add, del, suspend,
  resume, tick-advance and runtime-accumulation, whenever they return, and by execute
  whenever it returns and the callbacks preserve it. It is not preserved by set-period
  (\<^verbatim>\<open>qtask_tick_set\<close>), which stores the period and leaves the timer alone: the bound holds
  afterwards exactly when the timer of the task is at most the new period.
\<close>

theorem timer_within_period:
  assumes "timers_ok s"
  shows "timers_ok (qtask_sched_init s) \<and>
         (\<forall>t nm hdl tick r s'. qtask_add s t nm hdl tick = Some (r, s') \<longrightarrow> timers_ok s') \<and>
         (\<forall>t r s'. qtask_del s t = Some (r, s') \<longrightarrow> timers_ok s') \<and>
         (\<forall>nm r s'. qtask_suspend s nm = Some (r, s') \<longrightarrow> timers_ok s') \<and>
         (\<forall>nm r s'. qtask_resume s nm = Some (r, s') \<longrightarrow> timers_ok s') \<and>
         (\<forall>s'. qtask_tick_increase s = Some s' \<longrightarrow> timers_ok s') \<and>
         (\<forall>s'. qtask_runtime_increase s = Some s' \<longrightarrow> timers_ok s') \<and>
         (\<forall>cb s'. timers_kept cb \<longrightarrow> qtask_exec cb s = Some s' \<longrightarrow> timers_ok s') \<and>
         (\<forall>t tick. timers_ok (qtask_tick_set s t tick) = (timer (objs s t) \<le> tick)) \<and>
         (\<forall>t. timer (objs s t) = 0 \<longrightarrow> objs (tick_task s t) = objs s)"
proof (intro conjI allI impI)
  from assms show "timers_ok (qtask_sched_init s)"
    by (simp add: timers_ok_def qtask_sched_init_def set_next_def set_prev_def Let_def)
next
  fix t nm hdl tick r s' assume "qtask_add s t nm hdl tick = Some (r, s')"
  with assms show "timers_ok s'" by (rule qtask_add_timers [rotated])
next
  fix t r s' assume "qtask_del s t = Some (r, s')"
  with assms show "timers_ok s'" by (rule qtask_del_timers [rotated])
next
  fix nm r s' assume "qtask_suspend s nm = Some (r, s')"
  from suspend_loop_timers [OF this [unfolded qtask_suspend_def Let_def]] assms
  show "timers_ok s'" by simp
next
  fix nm r s' assume "qtask_resume s nm = Some (r, s')"
  from resume_loop_timers [OF this [unfolded qtask_resume_def Let_def]] assms
  show "timers_ok s'" by simp
next
  fix s' assume "qtask_tick_increase s = Some s'"
  from tick_loop_timers [OF this [unfolded qtask_tick_increase_def Let_def] assms]
  show "timers_ok s'" .
next
  fix s' assume "qtask_runtime_increase s = Some s'"
  from runtime_loop_timers [OF this [unfolded qtask_runtime_increase_def]] assms
  show "timers_ok s'" by simp
next
  fix cb s' assume "timers_kept cb" "qtask_exec cb s = Some s'"
  from exec_loop_timers [OF this(2) [unfolded qtask_exec_def Let_def]] this(1) assms
  show "timers_ok s'" by simp
next
  fix t tick
  from assms show "timers_ok (qtask_tick_set s t tick) = (timer (objs s t) \<le> tick)"
    by (auto simp: timers_ok_def qtask_tick_set_def)
next
  fix t assume "timer (objs s t) = 0"
  then show "objs (tick_task s t) = objs s" by (simp add: tick_obj_def)
qed

text \<open>
  The same in the scheduler with one task of period 3, over one tick and over a longer
  period, and in the scheduler with one task that has just expired, over an execute pass
  during which a high-frequency tick arrives.
\<close>

theorem timer_within_period_witness:
  "timers_ok added3_mem \<and> qtask_tick_increase added3_mem = Some ticked_mem \<and>
   timers_ok ticked_mem \<and> timer (objs ticked_mem 0) = 2 \<and> period (objs ticked_mem 0) = 3 \<and>
   timers_ok (qtask_tick_set added3_mem 0 7) \<and>
   timers_ok fired_mem \<and> timers_kept count_cb \<and> qtask_exec count_cb fired_mem \<noteq> None \<and>
   timers_ok (the (qtask_exec count_cb fired_mem))"
proof -
  have ok: "timers_ok added3_mem"
    by (simp add: timers_ok_def added3_mem_def run_defs)
  have t: "qtask_tick_increase added3_mem = Some ticked_mem"
    unfolding ticked_mem_def using tick_spec(1) [OF sched_invD(1) [OF added3_eval(1)]] by simp
  have o: "timer (objs ticked_mem 0) = 2" "period (objs ticked_mem 0) = 3"
    "timer (objs added3_mem 0) \<le> 7"
    by (simp_all add: ticked_mem_def added3_mem_def run_defs)
  have okf: "timers_ok fired_mem"
    by (simp add: timers_ok_def fired_mem_def run_defs)
  have k: "timers_kept count_cb"
    unfolding timers_kept_def timers_ok_def count_cb_def by auto
  have "qtask_exec count_cb fired_mem \<noteq> None"
    by (simp add: fired_mem_def count_cb_def run_defs)
  then obtain s' where e: "qtask_exec count_cb fired_mem = Some s'" by blast
  with timer_within_period [OF okf] k have "timers_ok s'" by blast
  with e have f: "qtask_exec count_cb fired_mem \<noteq> None"
    "timers_ok (the (qtask_exec count_cb fired_mem))" by simp_all
  from timer_within_period [OF ok] t o ok okf k f show ?thesis by blast
qed

text \<open>
  C8 as stated fails for set-period: the task of \<open>added3_mem\<close> has timer 3 and period 3;
  after \<^verbatim>\<open>qtask_tick_set(task, 2)\<close> its timer, still 3, exceeds its period.
\<close>

theorem tick_set_breaks_bound:
  "timers_ok added3_mem \<and> timer (objs added3_mem 0) = 3 \<and>
   timer (objs (qtask_tick_set added3_mem 0 2) 0) = 3 \<and>
   period (objs (qtask_tick_set added3_mem 0 2) 0) = 2 \<and>
   \<not> timers_ok (qtask_tick_set added3_mem 0 2)"
proof -
  have ok: "timers_ok added3_mem"
    by (simp add: timers_ok_def added3_mem_def run_defs)
  have o: "timer (objs added3_mem 0) = 3" by (simp add: added3_eval(3))
  have n: "\<not> timer (objs (qtask_tick_set added3_mem 0 2) 0) \<le>
      period (objs (qtask_tick_set added3_mem 0 2) 0)"
    by (simp add: qtask_tick_set_def o)
  then have "\<not> timers_ok (qtask_tick_set added3_mem 0 2)"
    unfolding timers_ok_def by blast
  with ok o show ?thesis by (simp add: qtask_tick_set_def)
qed

section \<open>C9: suspend, then resume\<close>

text \<open>
  C9, amended. Let task \<open>t\<close> be in the active list under the id of a name, as
  \<^verbatim>\<open>qtask_add\<close> registers it, and let no other task in either list have this id. Then
  \<^verbatim>\<open>qtask_suspend\<close> of the name followed by \<^verbatim>\<open>qtask_resume\<close> of the name returns status 0
  each time; \<open>t\<close> is in the suspended list in between and at the head of the active list
  at the end, and the suspended list is as before. Whatever its timer and its ready flag
  were, \<open>t\<close> ends with its timer equal to its period and not ready; nothing else changes
  in the task objects.
\<close>

theorem suspend_resume_no_collision:
  assumes inv: "sched_inv s xs ys"
    and act: "t \<in> set xs"
    and idt: "id_obj (objs s t) = id_calc nm"
    and nocoll: "\<forall>u\<in>set xs \<union> set ys. u \<noteq> t \<longrightarrow> id_obj (objs s u) \<noteq> id_calc nm"
  shows "\<exists>s2 s3. qtask_suspend s nm = Some (0, s2) \<and> sched_inv s2 (remove1 t xs) (t # ys) \<and>
           qtask_resume s2 nm = Some (0, s3) \<and> sched_inv s3 (t # remove1 t xs) ys \<and>
           timer (objs s3 t) = period (objs s3 t) \<and> isready (objs s3 t) = 0 \<and>
           objs s3 = (objs s)(t := (objs s t)\<lparr>isready := 0, timer := period (objs s t)\<rparr>) \<and>
           run_task s3 = run_task s \<and> calls s3 = calls s"
proof -
  from suspend_found_spec [OF inv act idt nocoll] obtain s2 where s2:
    "qtask_suspend s nm = Some (0, s2)" "sched_inv s2 (remove1 t xs) (t # ys)"
    "objs s2 = (objs s)(t := (objs s t)\<lparr>isready := 0, timer := period (objs s t)\<rparr>)"
    "run_task s2 = run_task s" "calls s2 = calls s"
    by blast
  have t2: "t \<in> set (t # ys)" "id_obj (objs s2 t) = id_calc nm"
    by (simp_all add: s2(3) idt)
  have n2: "\<forall>u\<in>set (remove1 t xs) \<union> set (t # ys). u \<noteq> t \<longrightarrow> id_obj (objs s2 u) \<noteq> id_calc nm"
  proof (intro ballI impI)
    fix u assume u: "u \<in> set (remove1 t xs) \<union> set (t # ys)" "u \<noteq> t"
    then have "u \<in> set xs \<union> set ys" by (auto dest: notin_set_remove1)
    with nocoll u(2) show "id_obj (objs s2 u) \<noteq> id_calc nm" by (simp add: s2(3))
  qed
  from resume_found_spec [OF s2(2) t2 n2] obtain s3 where s3:
    "qtask_resume s2 nm = Some (0, s3)"
    "sched_inv s3 (t # remove1 t xs) (remove1 t (t # ys))"
    "objs s3 = (objs s2)(t := (objs s2 t)\<lparr>isready := 0, timer := period (objs s2 t)\<rparr>)"
    "run_task s3 = run_task s2" "calls s3 = calls s2"
    by blast
  have o3: "objs s3 = (objs s)(t := (objs s t)\<lparr>isready := 0, timer := period (objs s t)\<rparr>)"
    by (simp add: s3(3) s2(3))
  have "timer (objs s3 t) = period (objs s3 t)" "isready (objs s3 t) = 0"
    by (simp_all add: o3)
  with s2(1,2) s3(1,2) o3 s3(4,5) s2(4,5) show ?thesis by auto
qed

text \<open>
  The same at \<open>late_mem\<close>: the task is ready and its timer is at 1, below its period 2,
  before the two calls; after them it is not ready and its timer is at 2.
\<close>

theorem suspend_resume_no_collision_witness:
  "sched_inv late_mem [0] [] \<and> id_obj (objs late_mem 0) = id_calc (Some ''a'') \<and>
   isready (objs late_mem 0) = 1 \<and> timer (objs late_mem 0) = 1 \<and>
   period (objs late_mem 0) = 2 \<and>
   (\<exists>s2 s3. qtask_suspend late_mem (Some ''a'') = Some (0, s2) \<and> sched_inv s2 [] [0] \<and>
      qtask_resume s2 (Some ''a'') = Some (0, s3) \<and> sched_inv s3 [0] [] \<and>
      timer (objs s3 0) = 2 \<and> period (objs s3 0) = 2 \<and> isready (objs s3 0) = 0)"
proof -
  have i: "sched_inv late_mem [0] []"
    by (simp add: late_mem_def run_defs inv_defs)
  have o: "id_obj (objs late_mem 0) = id_calc (Some ''a'')" "isready (objs late_mem 0) = 1"
    "timer (objs late_mem 0) = 1" "period (objs late_mem 0) = 2"
    by (simp_all add: late_mem_def run_defs)
  have a: "0 \<in> set [0::nat]" by simp
  have n: "\<forall>u\<in>set [0] \<union> set []. u \<noteq> 0 \<longrightarrow>
      id_obj (objs late_mem u) \<noteq> id_calc (Some ''a'')" by simp
  from suspend_resume_no_collision [OF i a o(1) n] i o show ?thesis
    by auto
qed

text \<open>
  C9 as stated fails when two names share an id. Task 1, added as \<^verbatim>\<open>"ar"\<close>, is suspended
  and task 0 is active. Adding task 0 as \<^verbatim>\<open>"bQ"\<close> (the same id) returns 0 and leaves it
  active; suspending \<^verbatim>\<open>"bQ"\<close> then unlinks task 0 without inserting it (status -1), and
  resuming \<^verbatim>\<open>"bQ"\<close> moves task 1 to the active list: task 0 is not in it.
\<close>

theorem add_suspend_resume_collision:
  "sched_inv pre_collide_mem [0] [1] \<and>
   qtask_add pre_collide_mem 0 (Some ''bQ'') 7 5 = Some (0, collide_mem) \<and>
   sched_inv collide_mem [0] [1] \<and> id_obj (objs collide_mem 0) = id_calc (Some ''bQ'') \<and>
   qtask_suspend collide_mem (Some ''bQ'') = Some (- 1, dropped_mem) \<and>
   fst (the (qtask_resume dropped_mem (Some ''bQ''))) = 0 \<and>
   sched_inv (snd (the (qtask_resume dropped_mem (Some ''bQ'')))) [1] []"
proof -
  have "fst (the (qtask_resume dropped_mem (Some ''bQ''))) = 0"
    "sched_inv (snd (the (qtask_resume dropped_mem (Some ''bQ'')))) [1] []"
    by (simp_all add: dropped_mem_def collide_mem_def pre_collide_mem_def run_defs inv_defs)
  with pre_collide_eval(1) collide_eval(1,2,3) dropped_eval(1) show ?thesis by simp
qed

section \<open>C10: removing a task that is in no list\<close>

text \<open>
  C10, amended. \<^verbatim>\<open>qtask_del\<close> on a task that is in neither list, and whose id is not the
  id of a task in either list, inserts the task at the head of the suspended list and
  returns 0; no field of any task changes.
\<close>

theorem del_unlisted_task:
  assumes "sched_inv s xs ys" "t \<notin> set xs" "t \<notin> set ys"
    and "\<forall>u\<in>set xs \<union> set ys. id_obj (objs s u) \<noteq> id_obj (objs s t)"
  shows "\<exists>s'. qtask_del s t = Some (0, s') \<and> sched_inv s' xs (t # ys) \<and> objs s' = objs s \<and>
           run_task s' = run_task s \<and> calls s' = calls s"
  using del_spec [OF assms(1), of t] assms(2-4) by (auto simp: remove1_idem)

text \<open>The same at a task never added, in the scheduler with one active task.\<close>

theorem del_unlisted_task_witness:
  "sched_inv added3_mem [0] [] \<and> id_obj (objs added3_mem 0) \<noteq> id_obj (objs added3_mem 1) \<and>
   (\<exists>s'. qtask_del added3_mem 1 = Some (0, s') \<and> sched_inv s' [0] [1] \<and>
      objs s' = objs added3_mem)"
proof -
  have n: "id_obj (objs added3_mem 0) \<noteq> id_obj (objs added3_mem 1)"
    by (simp add: added3_mem_def run_defs)
  with del_unlisted_task [OF added3_eval(1), of 1] show ?thesis
    by (auto simp: added3_eval(1))
qed

text \<open>
  C10 as stated fails when the id of the task is the id of a suspended task: task 0 of
  \<open>dropped_mem\<close> is in neither list (the active list is empty, the suspended list holds
  task 1 only), and \<^verbatim>\<open>qtask_del\<close> on it returns -1 and changes nothing.
\<close>

theorem del_unlisted_task_collision:
  "sched_inv dropped_mem [] [1] \<and> qtask_del dropped_mem 0 = Some (- 1, dropped_mem)"
proof -
  have "qtask_isexist dropped_mem 0 = Some 0" "qdtask_isexsit dropped_mem 0 = Some 1"
    by (simp_all add: dropped_mem_def collide_mem_def pre_collide_mem_def run_defs)
  from qtask_del_refused [OF this] dropped_eval(2) show ?thesis by simp
qed

end
